theory Spec2Isabelle
  imports Complex_Main "HOL-Library.Word" "HOL-Library.Sublist"
begin

unbundle bit_operations_syntax

section \<open>OpenDocument meta.xml parser: accumulation of metadata fields\<close>

text \<open>
  \<^verbatim>\<open>OpenDocMetaParser\<close> keeps the field selected by the last opening tag and one string
  per metadata field. \<^verbatim>\<open>process_content\<close> is called once per text fragment.
\<close>

datatype field_t = NONE | KEYWORDS | TITLE | SAMPLE | AUTHOR | CREATED

record OpenDocMetaParser =
  field :: field_t
  keywords_str :: string
  title :: string
  sample :: string
  author :: string
  created :: int
  pages :: int

text \<open>
  \<^verbatim>\<open>parse_datetime\<close> (datetime.h) is not part of the sources at hand; it is a parameter.
  \<^verbatim>\<open>if (!keywords.empty()) keywords += ' '; keywords += content;\<close>
\<close>

definition process_content ::
  "(string \<Rightarrow> int) \<Rightarrow> string \<Rightarrow> OpenDocMetaParser \<Rightarrow> OpenDocMetaParser" where
  "process_content parse_datetime content p =
     (case field p of
        KEYWORDS \<Rightarrow>
          p\<lparr>keywords_str := (if keywords_str p \<noteq> [] then keywords_str p @ '' '' else keywords_str p) @ content\<rparr>
      | TITLE \<Rightarrow>
          p\<lparr>title := (if title p \<noteq> [] then title p @ '' '' else title p) @ content\<rparr>
      | SAMPLE \<Rightarrow>
          p\<lparr>sample := (if sample p \<noteq> [] then sample p @ '' '' else sample p) @ content\<rparr>
      | AUTHOR \<Rightarrow>
          p\<lparr>author := (if author p \<noteq> [] then author p @ '' '' else author p) @ content\<rparr>
      | CREATED \<Rightarrow> p\<lparr>created := parse_datetime content\<rparr>
      | NONE \<Rightarrow> p)"

text \<open>Processing the fragments \<open>f1..fn\<close> in order, with no tag in between.\<close>

fun process_contents ::
  "(string \<Rightarrow> int) \<Rightarrow> string list \<Rightarrow> OpenDocMetaParser \<Rightarrow> OpenDocMetaParser" where
  "process_contents pd [] p = p"
| "process_contents pd (c # cs) p = process_contents pd cs (process_content pd c p)"

text \<open>The string accumulated for a field (\<open>CREATED\<close> and \<open>NONE\<close> accumulate nothing).\<close>

fun field_value :: "field_t \<Rightarrow> OpenDocMetaParser \<Rightarrow> string" where
  "field_value KEYWORDS p = keywords_str p"
| "field_value TITLE p = title p"
| "field_value SAMPLE p = sample p"
| "field_value AUTHOR p = author p"
| "field_value CREATED p = []"
| "field_value NONE p = []"

text \<open>
  The specification's ``space-separated concatenation'' of a list of fragments: the
  fragments joined with exactly one space between neighbours.
\<close>

fun space_separated :: "string list \<Rightarrow> string" where
  "space_separated [] = []"
| "space_separated [c] = c"
| "space_separated (c # d # cs) = c @ '' '' @ space_separated (d # cs)"

definition empty_parser :: OpenDocMetaParser where
  "empty_parser = \<lparr>field = NONE, keywords_str = [], title = [], sample = [], author = [],
                    created = 0, pages = 0\<rparr>"

section \<open>Writable database handle\<close>

datatype om_error = OmInvalidArgumentError | OmDatabaseError

text \<open>
  \<^verbatim>\<open>OmDatabase::Internal\<close> holds the reference-counted pointer \<^verbatim>\<open>mydb\<close> (and the mutex,
  which has no role in a sequential model). The class declarations are not among the
  sources; of the source handle only \<^verbatim>\<open>is_writable()\<close> and \<^verbatim>\<open>internal->mydb\<close> are used, so
  a handle is modelled by these two.
\<close>

record 'db OmDatabase =
  is_writable :: bool
  mydb :: 'db

text \<open>
  \<^verbatim>\<open>OmWritableDatabase::operator=(const OmDatabase&)\<close>: the result is the thrown error, if
  any, together with the target handle after the call.
\<close>

definition assign_OmDatabase ::
  "'db OmDatabase \<Rightarrow> 'db OmDatabase \<Rightarrow> (om_error + unit) \<times> 'db OmDatabase" where
  "assign_OmDatabase this other =
     (if is_writable other then (Inr (), this\<lparr>mydb := mydb other\<rparr>)
      else (Inl OmInvalidArgumentError, this))"

record OmDocumentTerm =
  tname :: string
  wdf :: nat

text \<open>\<^verbatim>\<open>OmDocumentContents::terms\<close> is a map from term name to \<^verbatim>\<open>OmDocumentTerm\<close>, iterated
  in key order; the model keeps its entries as the list the iteration visits.\<close>

record OmDocumentContents =
  terms :: "(string \<times> OmDocumentTerm) list"

text \<open>The validity loop of \<^verbatim>\<open>add_document\<close>: throws at the first term of zero length.\<close>

fun check_terms :: "(string \<times> OmDocumentTerm) list \<Rightarrow> om_error option" where
  "check_terms [] = None"
| "check_terms (i # rest) =
     (if length (tname (snd i)) = 0 then Some OmInvalidArgumentError else check_terms rest)"

text \<open>
  \<^verbatim>\<open>OmWritableDatabase::add_document\<close>. The underlying \<^verbatim>\<open>IRDatabase::add_document\<close> is
  virtual: it is the parameter \<open>db_add\<close>, which may itself throw and otherwise returns the
  new docid and the changed database. The result pairs what the call returns or throws
  with the database afterwards.
\<close>

definition add_document ::
  "(OmDocumentContents \<Rightarrow> nat \<Rightarrow> 'db \<Rightarrow> om_error + nat \<times> 'db) \<Rightarrow>
   OmDocumentContents \<Rightarrow> nat \<Rightarrow> 'db OmDatabase \<Rightarrow> (om_error + nat) \<times> 'db OmDatabase" where
  "add_document db_add document timeout this =
     (case check_terms (terms document) of
        Some e \<Rightarrow> (Inl e, this)
      | None \<Rightarrow>
          (case db_add document timeout (mydb this) of
             Inl e \<Rightarrow> (Inl e, this)
           | Inr (did, db') \<Rightarrow> (Inr did, this\<lparr>mydb := db'\<rparr>)))"

section \<open>Registry of user subclasses\<close>

datatype xapian_error =
    InvalidArgumentError
  | InvalidOperationError
  | SerialisationError
  | DatabaseError
  | DatabaseCorruptError

text \<open>
  Objects live on the heap and are known by their address; \<open>NULL\<close> is address 0. An
  object handed to the cloning \<^verbatim>\<open>register_object\<close> is used through \<^verbatim>\<open>name()\<close> and
  \<^verbatim>\<open>clone()\<close> only: the model records what the two calls return (\<open>clone\<close> returns the
  address of the copy, or \<open>NULL\<close>).
\<close>

type_synonym ptr = nat

abbreviation (input) NULL :: ptr where
  "NULL \<equiv> 0"

record cloneable =
  name :: string
  clone :: ptr

text \<open>
  One category of the registry that stores raw pointers (weighting schemes, posting
  sources, match spies, lat-long metrics): the \<^verbatim>\<open>std::map\<close> from name to pointer, and the
  addresses that \<^verbatim>\<open>delete\<close> has been applied to, in order (\<^verbatim>\<open>delete\<close> of \<open>NULL\<close> does
  nothing). Destructors are taken not to throw.
\<close>

record registry =
  entries :: "string \<rightharpoonup> ptr"
  deleted :: "ptr list"

definition delete_ptr :: "ptr \<Rightarrow> registry \<Rightarrow> registry" where
  "delete_ptr p reg = (if p = NULL then reg else reg\<lparr>deleted := deleted reg @ [p]\<rparr>)"

text \<open>
  \<^verbatim>\<open>register_object(map<string, T*>&, const T&)\<close>. The map is changed in place, so an
  exception leaves the changes made before it: the result is the exception, if any, and the
  registry after the call.
\<close>

definition register_object :: "registry \<Rightarrow> cloneable \<Rightarrow> xapian_error option \<times> registry" where
  "register_object reg obj =
     (if name obj = [] then (Some InvalidOperationError, reg)
      else
        let r_second = (entries reg (name obj) = None);
            reg1 = (if r_second then reg\<lparr>entries := (entries reg)(name obj \<mapsto> NULL)\<rparr> else reg);
            reg2 = (if \<not> r_second
                    then delete_ptr (the (entries reg1 (name obj)))
                           (reg1\<lparr>entries := (entries reg1)(name obj \<mapsto> NULL)\<rparr>)
                    else reg1)
        in if clone obj = NULL then (Some InvalidOperationError, reg2)
           else (None, reg2\<lparr>entries := (entries reg2)(name obj \<mapsto> clone obj)\<rparr>))"

text \<open>
  \<^verbatim>\<open>lookup_object\<close>: \<open>NULL\<close> when the name has no entry.
\<close>

definition lookup_object :: "registry \<Rightarrow> string \<Rightarrow> ptr" where
  "lookup_object reg nm = (case entries reg nm of None \<Rightarrow> NULL | Some p \<Rightarrow> p)"

text \<open>
  The category of key makers stores \<^verbatim>\<open>opt_intrusive_ptr\<close>s. The smart pointer class is not
  among the sources. Modelled from the spec: registering ``takes a shared reference'' and a
  replaced entry is ``released''; the model counts, per address, the references that smart
  pointers hold (\<open>refs\<close>). Constructing an \<^verbatim>\<open>opt_intrusive_ptr\<close> from a raw pointer takes a
  reference, destroying or overwriting one gives its reference back, moving one passes it
  on. \<open>NULL\<close> is not counted.
\<close>

record rc_registry =
  rc_entries :: "string \<rightharpoonup> ptr"
  refs :: "ptr \<Rightarrow> nat"

definition take_ref :: "ptr \<Rightarrow> rc_registry \<Rightarrow> rc_registry" where
  "take_ref p reg = (if p = NULL then reg else reg\<lparr>refs := (refs reg)(p := refs reg p + 1)\<rparr>)"

definition release_ref :: "ptr \<Rightarrow> rc_registry \<Rightarrow> rc_registry" where
  "release_ref p reg = (if p = NULL then reg else reg\<lparr>refs := (refs reg)(p := refs reg p - 1)\<rparr>)"

text \<open>
  \<^verbatim>\<open>register_object(map<string, opt_intrusive_ptr<T>>&, T*)\<close>, for an object at address
  \<open>objp\<close> whose \<^verbatim>\<open>name()\<close> returns \<open>nm\<close>.
\<close>

definition register_object_rc ::
  "rc_registry \<Rightarrow> ptr \<Rightarrow> string \<Rightarrow> xapian_error option \<times> rc_registry" where
  "register_object_rc reg objp nm =
     (let reg0 = take_ref objp reg
      in if nm = [] then (Some InvalidOperationError, release_ref objp reg0)
         else
           let reg1 = (if rc_entries reg0 nm = None
                       then reg0\<lparr>rc_entries := (rc_entries reg0)(nm \<mapsto> NULL)\<rparr> else reg0);
               old = the (rc_entries reg1 nm)
           in (None, release_ref old (reg1\<lparr>rc_entries := (rc_entries reg1)(nm \<mapsto> objp)\<rparr>)))"

section \<open>The PL2+ weighting scheme\<close>

text \<open>
  Doubles are modelled as real numbers: the model has the comparisons and the data flow of
  the code, not the rounding, infinities or NaN of floating point (a division by zero
  gives 0 here; the caller ensures a non-empty collection).

  The statistics come from the \<^verbatim>\<open>Xapian::Weight\<close> base class, which is not among the
  sources: \<^verbatim>\<open>get_wqf()\<close>, \<^verbatim>\<open>get_wdf_upper_bound()\<close> and so on are read from a record.
\<close>

datatype stat_flags =
    AVERAGE_LENGTH | DOC_LENGTH | DOC_LENGTH_MIN | DOC_LENGTH_MAX
  | COLLECTION_SIZE | COLLECTION_FREQ | WDF | WDF_MAX | WQF

record weight_stats =
  get_wqf :: nat
  get_wdf_upper_bound :: nat
  get_collection_freq :: nat
  get_collection_size :: nat
  get_average_length :: real
  get_doclength_upper_bound :: nat
  get_doclength_lower_bound :: nat

record PL2PlusWeight =
  stats_needed :: "stat_flags list"
  factor :: real
  param_c :: real
  param_delta :: real
  upper_bound :: real
  P1 :: real
  P2 :: real
  cl :: real
  mean :: real
  dw :: real

text \<open>
  The constructor sets \<^verbatim>\<open>param_c\<close> and \<^verbatim>\<open>param_delta\<close> and registers the statistics
  it needs. It gives no value to the other members: they keep whatever the memory of the
  new object holds, which is the first argument here.
\<close>

definition need_stat :: "stat_flags \<Rightarrow> PL2PlusWeight \<Rightarrow> PL2PlusWeight" where
  "need_stat flag w = w\<lparr>stats_needed := stats_needed w @ [flag]\<rparr>"

definition PL2PlusWeight_new ::
  "PL2PlusWeight \<Rightarrow> real \<Rightarrow> real \<Rightarrow> xapian_error + PL2PlusWeight" where
  "PL2PlusWeight_new raw c delta =
     (let w = raw\<lparr>stats_needed := [], param_c := c, param_delta := delta\<rparr>
      in if param_c w \<le> 0 then Inl InvalidArgumentError
         else if param_delta w \<le> 0 then Inl InvalidArgumentError
         else Inr (need_stat WQF (need_stat WDF_MAX (need_stat WDF (need_stat COLLECTION_FREQ
                (need_stat COLLECTION_SIZE (need_stat DOC_LENGTH_MAX (need_stat DOC_LENGTH_MIN
                (need_stat DOC_LENGTH (need_stat AVERAGE_LENGTH w))))))))))"

definition init :: "weight_stats \<Rightarrow> real \<Rightarrow> PL2PlusWeight \<Rightarrow> PL2PlusWeight" where
  "init st factor0 w =
     (if factor0 = 0 then w
      else
        let w1 = w\<lparr>factor := factor0 * real (get_wqf st)\<rparr>;
            wdf_upper_bound = get_wdf_upper_bound st;
            w2 = w1\<lparr>mean := real (get_collection_freq st) / real (get_collection_size st)\<rparr>
        in if wdf_upper_bound = 0 \<or> mean w2 > 1 then w2\<lparr>upper_bound := 0\<rparr>
           else
             let base_change = 1 / ln 2;
                 w3 = w2\<lparr>P1 := mean w2 * base_change + 0.5 * log 2 (2 * pi)\<rparr>;
                 w4 = w3\<lparr>P2 := log 2 (mean w3) + base_change\<rparr>;
                 w5 = w4\<lparr>cl := param_c w4 * get_average_length st\<rparr>;
                 wdfn_lower = log 2 (1 + cl w5 / real (get_doclength_upper_bound st));
                 divisior = real (max (get_wdf_upper_bound st) (get_doclength_lower_bound st));
                 wdfn_upper = real (get_wdf_upper_bound st) * log 2 (1 + cl w5 / divisior);
                 P_delta = P1 w5 + (param_delta w5 + 0.5) * log 2 (param_delta w5)
                           - P2 w5 * param_delta w5;
                 w6 = w5\<lparr>dw := P_delta / (param_delta w5 + 1)\<rparr>;
                 P_max2a = (wdfn_upper + 0.5) * log 2 wdfn_upper / (wdfn_upper + 1);
                 wdfn_optb = (if P1 w6 + P2 w6 > 0 then wdfn_upper else wdfn_lower);
                 P_max2b = (P1 w6 - P2 w6 * wdfn_optb) / (wdfn_optb + 1);
                 w7 = w6\<lparr>upper_bound := factor w6 * (P_max2a + P_max2b + dw w6)\<rparr>
             in if upper_bound w7 < 0 then w7\<lparr>upper_bound := 0\<rparr> else w7)"

definition get_sumpart :: "PL2PlusWeight \<Rightarrow> nat \<Rightarrow> nat \<Rightarrow> real" where
  "get_sumpart w wdf0 len =
     (if wdf0 = 0 \<or> mean w > 1 then 0
      else
        let wdfn = real wdf0 * log 2 (1 + cl w / real len);
            P = P1 w + (wdfn + 0.5) * log 2 wdfn - P2 w * wdfn;
            wt = (P / (wdfn + 1)) + dw w
        in if wt \<le> 0 then 0 else factor w * wt)"

definition get_maxpart :: "PL2PlusWeight \<Rightarrow> real" where
  "get_maxpart w = upper_bound w"

text \<open>
  \<^verbatim>\<open>serialise_double\<close> and \<^verbatim>\<open>unserialise_double\<close> (serialise-double.h) are not among the
  sources: they are parameters. \<open>unserialise_double\<close> reads one double from the front of
  its input and returns it with the input that is left (the C++ advances \<^verbatim>\<open>ptr\<close>), or
  throws.
\<close>

definition serialise :: "(real \<Rightarrow> string) \<Rightarrow> PL2PlusWeight \<Rightarrow> string" where
  "serialise serialise_double w =
     (let result = serialise_double (param_c w)
      in result @ serialise_double (param_delta w))"

definition unserialise ::
  "(string \<Rightarrow> xapian_error + real \<times> string) \<Rightarrow> PL2PlusWeight \<Rightarrow> string \<Rightarrow>
   xapian_error + PL2PlusWeight" where
  "unserialise unserialise_double raw s =
     (case unserialise_double s of
        Inl e \<Rightarrow> Inl e
      | Inr (c, ptr1) \<Rightarrow>
          (case unserialise_double ptr1 of
             Inl e \<Rightarrow> Inl e
           | Inr (delta, ptr2) \<Rightarrow>
               if ptr2 \<noteq> [] then Inl SerialisationError
               else PL2PlusWeight_new raw c delta))"

section \<open>N-way AND postlist\<close>

text \<open>
  Modelled from the spec: the \<^verbatim>\<open>PostList\<close> interface and the leaf postlists behind it are
  not among the sources, nor is multiandpostlist.h with \<^verbatim>\<open>next_helper\<close>,
  \<^verbatim>\<open>skip_to_helper\<close> and \<^verbatim>\<open>check_helper\<close>. A child of the AND is a leaf over one term's
  posting stream: \<open>todo\<close> holds the docids the leaf has not passed, in the order it emits
  them; once \<open>started\<close>, the leaf is positioned on the head of \<open>todo\<close>, and it is at its end
  when \<open>todo\<close> is empty. \<open>next\<close> steps to the following docid, \<open>skip_to\<close> to the first
  docid that is not below its argument (staying where it is when already there).
  \<open>check\<close> acts like \<open>skip_to\<close> and reports \<open>valid\<close>, or, for a leaf with \<open>lazy_check\<close>,
  only tests the docid: when the docid is in the stream the leaf is positioned on it and
  \<open>valid\<close> is true, otherwise the leaf is left as it is and \<open>valid\<close> is false.
  The minimum weight \<open>w_min\<close> is advisory; these conservative leaves ignore it, and a
  leaf never replaces itself by another postlist, so the helpers only store the child back.
  Docid 0 stands for ``no document''. Weights are doubles, modelled as reals.
\<close>

record leaf =
  started :: bool
  todo :: "nat list"
  lazy_check :: bool
  maxweight :: real
  weight :: "nat \<Rightarrow> nat \<Rightarrow> nat \<Rightarrow> nat \<Rightarrow> real"

definition leaf_at_end :: "leaf \<Rightarrow> bool" where
  "leaf_at_end p = (started p \<and> todo p = [])"

definition leaf_get_docid :: "leaf \<Rightarrow> nat" where
  "leaf_get_docid p = (if started p then (case todo p of [] \<Rightarrow> 0 | d # _ \<Rightarrow> d) else 0)"

definition leaf_next :: "real \<Rightarrow> leaf \<Rightarrow> leaf" where
  "leaf_next w_min p = (if started p then p\<lparr>todo := tl (todo p)\<rparr> else p\<lparr>started := True\<rparr>)"

definition leaf_skip_to :: "nat \<Rightarrow> real \<Rightarrow> leaf \<Rightarrow> leaf" where
  "leaf_skip_to did_min w_min p =
     p\<lparr>started := True, todo := dropWhile (\<lambda>d. d < did_min) (todo p)\<rparr>"

definition leaf_check :: "nat \<Rightarrow> real \<Rightarrow> leaf \<Rightarrow> leaf \<times> bool" where
  "leaf_check did_min w_min p =
     (if lazy_check p
      then (case dropWhile (\<lambda>d. d < did_min) (todo p) of
              [] \<Rightarrow> (p, False)
            | d # ds \<Rightarrow> if d = did_min then (p\<lparr>started := True, todo := d # ds\<rparr>, True)
                        else (p, False))
      else (leaf_skip_to did_min w_min p, True))"

definition leaf_recalc_maxweight :: "leaf \<Rightarrow> real" where
  "leaf_recalc_maxweight p = maxweight p"

definition leaf_get_weight :: "leaf \<Rightarrow> nat \<Rightarrow> nat \<Rightarrow> nat \<Rightarrow> real" where
  "leaf_get_weight p doclen unique_terms wdfdocmax =
     weight p (leaf_get_docid p) doclen unique_terms wdfdocmax"

text \<open>
  The children \<^verbatim>\<open>plist[0..n_kids)\<close>: the class indexes \<^verbatim>\<open>plist[0]\<close> unconditionally, so
  there is always a first child; \<open>plist0\<close> is \<^verbatim>\<open>plist[0]\<close> and \<open>plist_rest\<close> is
  \<^verbatim>\<open>plist[1..n_kids)\<close>.
\<close>

record MultiAndPostList =
  plist0 :: leaf
  plist_rest :: "leaf list"
  did :: nat
  max_wt :: "real list"
  max_total :: real

definition plist :: "MultiAndPostList \<Rightarrow> leaf list" where
  "plist s = plist0 s # plist_rest s"

text \<open>\<^verbatim>\<open>next_helper(0, w_min)\<close> and \<^verbatim>\<open>skip_to_helper(0, did_min, w_min)\<close>.\<close>

definition next_helper_0 :: "real \<Rightarrow> MultiAndPostList \<Rightarrow> MultiAndPostList" where
  "next_helper_0 w_min s = s\<lparr>plist0 := leaf_next w_min (plist0 s)\<rparr>"

definition skip_to_helper_0 :: "nat \<Rightarrow> real \<Rightarrow> MultiAndPostList \<Rightarrow> MultiAndPostList" where
  "skip_to_helper_0 did_min w_min s = s\<lparr>plist0 := leaf_skip_to did_min w_min (plist0 s)\<rparr>"

text \<open>
  The \<^verbatim>\<open>for\<close> loop of \<^verbatim>\<open>find_next_match\<close> over the children \<open>1..n_kids\<close>, with the
  way it is left: every child agreed on \<open>did\<close>; \<^verbatim>\<open>check_helper\<close> reported invalid; a
  child is at its end; or a child is on another docid.
\<close>

datatype check_result = All_agree | Kid_invalid | Kid_at_end | Kid_differs nat

fun check_kids :: "nat \<Rightarrow> real \<Rightarrow> leaf list \<Rightarrow> check_result \<times> leaf list" where
  "check_kids d w_min [] = (All_agree, [])"
| "check_kids d w_min (p # ps) =
     (case leaf_check d w_min p of (p', valid) \<Rightarrow>
        if \<not> valid then (Kid_invalid, p' # ps)
        else if leaf_at_end p' then (Kid_at_end, p' # ps)
        else let new_did = leaf_get_docid p'
             in if new_did \<noteq> d then (Kid_differs new_did, p' # ps)
                else (case check_kids d w_min ps of (r, ps') \<Rightarrow> (r, p' # ps')))"

text \<open>
  What is left of a leaf; it decreases whenever the first child is advanced, which is why
  the \<^verbatim>\<open>goto advanced_plist0\<close> loop ends.
\<close>

definition leaf_measure :: "leaf \<Rightarrow> nat" where
  "leaf_measure p = length (todo p) + (if started p then 0 else 1)"

lemma hd_dropWhile_ge:
  "dropWhile (\<lambda>x. x < (d::nat)) xs = y # ys \<Longrightarrow> d \<le> y"
  using hd_dropWhile [of "\<lambda>x. x < d" xs] by auto

lemma leaf_check_ge:
  assumes "leaf_check d w p = (p', True)" and "\<not> leaf_at_end p'"
  shows "d \<le> leaf_get_docid p'"
proof (cases "lazy_check p")
  case True
  with assms(1) show ?thesis
    by (auto simp: leaf_check_def leaf_get_docid_def split: list.splits if_splits)
next
  case False
  with assms(1) have p': "p' = leaf_skip_to d w p" by (simp add: leaf_check_def)
  with assms(2) obtain y ys where "dropWhile (\<lambda>x. x < d) (todo p) = y # ys"
    by (cases "dropWhile (\<lambda>x. x < d) (todo p)") (auto simp: leaf_at_end_def leaf_skip_to_def)
  then show ?thesis
    using hd_dropWhile_ge [of d "todo p" y ys]
    by (simp add: p' leaf_skip_to_def leaf_get_docid_def)
qed

lemma check_kids_differs: "check_kids d w ps = (Kid_differs nd, ps') \<Longrightarrow> d < nd"
proof (induction ps arbitrary: ps')
  case Nil then show ?case by simp
next
  case (Cons p ps)
  obtain p' v where c: "leaf_check d w p = (p', v)" by (cases "leaf_check d w p")
  show ?case
  proof (cases "v \<and> \<not> leaf_at_end p' \<and> leaf_get_docid p' = d")
    case True
    obtain r qs where k: "check_kids d w ps = (r, qs)" by (cases "check_kids d w ps")
    with Cons.prems c True have "r = Kid_differs nd" by (simp add: Let_def)
    with k Cons.IH show ?thesis by simp
  next
    case False
    with Cons.prems c have *: "v" "\<not> leaf_at_end p'" "leaf_get_docid p' = nd" "nd \<noteq> d"
      by (auto simp: Let_def split: if_splits prod.splits)
    with leaf_check_ge [of d w p p'] c have "d \<le> nd" by simp
    with * show ?thesis by simp
  qed
qed

lemma leaf_measure_next:
  "\<not> leaf_at_end p \<Longrightarrow> leaf_measure (leaf_next w p) < leaf_measure p"
  by (cases "todo p") (auto simp: leaf_at_end_def leaf_next_def leaf_measure_def)

lemma leaf_measure_skip_to:
  assumes "\<not> leaf_at_end p" and "leaf_get_docid p < d"
  shows "leaf_measure (leaf_skip_to d w p) < leaf_measure p"
proof (cases "started p")
  case False
  have "length (dropWhile (\<lambda>x. x < d) (todo p)) \<le> length (todo p)"
    by (rule length_dropWhile_le)
  with False show ?thesis by (simp add: leaf_skip_to_def leaf_measure_def)
next
  case True
  with assms obtain y ys where t: "todo p = y # ys" and "y < d"
    by (cases "todo p") (auto simp: leaf_at_end_def leaf_get_docid_def)
  then have "length (dropWhile (\<lambda>x. x < d) (todo p)) \<le> length ys"
    by (simp add: length_dropWhile_le)
  with True t show ?thesis by (simp add: leaf_skip_to_def leaf_measure_def)
qed

text \<open>
  \<^verbatim>\<open>MultiAndPostList::find_next_match\<close>; each \<^verbatim>\<open>goto advanced_plist0\<close> is a recursive
  call.
\<close>

function find_next_match :: "real \<Rightarrow> MultiAndPostList \<Rightarrow> MultiAndPostList" where
  "find_next_match w_min s =
     (if leaf_at_end (plist0 s) then s\<lparr>did := 0\<rparr>
      else
        let s1 = s\<lparr>did := leaf_get_docid (plist0 s)\<rparr>
        in case check_kids (did s1) w_min (plist_rest s1) of
             (All_agree, ps) \<Rightarrow> s1\<lparr>plist_rest := ps\<rparr>
           | (Kid_at_end, ps) \<Rightarrow> s1\<lparr>plist_rest := ps, did := 0\<rparr>
           | (Kid_invalid, ps) \<Rightarrow>
               find_next_match w_min (next_helper_0 w_min (s1\<lparr>plist_rest := ps\<rparr>))
           | (Kid_differs new_did, ps) \<Rightarrow>
               find_next_match w_min (skip_to_helper_0 new_did w_min (s1\<lparr>plist_rest := ps\<rparr>)))"
  by pat_completeness auto

termination
proof (relation "measure (\<lambda>(w, s). leaf_measure (plist0 s))", goal_cases)
  case 1 show ?case by simp
next
  case (2 w_min s s1 r ps)
  then show ?case
    by (simp add: next_helper_0_def leaf_measure_next)
next
  case (3 w_min s s1 r ps nd)
  then have "leaf_get_docid (plist0 s) < nd"
    using check_kids_differs [of "leaf_get_docid (plist0 s)" w_min "plist_rest s" nd ps] by simp
  with 3 show ?case
    by (simp add: skip_to_helper_0_def leaf_measure_skip_to)
qed

declare find_next_match.simps [simp del]

definition MultiAndPostList_next :: "real \<Rightarrow> MultiAndPostList \<Rightarrow> MultiAndPostList" where
  "MultiAndPostList_next w_min s = find_next_match w_min (next_helper_0 w_min s)"

definition MultiAndPostList_skip_to :: "nat \<Rightarrow> real \<Rightarrow> MultiAndPostList \<Rightarrow> MultiAndPostList" where
  "MultiAndPostList_skip_to did_min w_min s = find_next_match w_min (skip_to_helper_0 did_min w_min s)"

definition at_end :: "MultiAndPostList \<Rightarrow> bool" where
  "at_end s = (did s = 0)"

definition get_docid :: "MultiAndPostList \<Rightarrow> nat" where
  "get_docid s = did s"

lemma find_next_match_measure:
  "leaf_measure (plist0 (find_next_match w s)) \<le> leaf_measure (plist0 s)"
proof (induction "leaf_measure (plist0 s)" arbitrary: s rule: less_induct)
  case less
  show ?case
  proof (cases "leaf_at_end (plist0 s)")
    case True
    then show ?thesis by (simp add: find_next_match.simps)
  next
    case False
    let ?d0 = "leaf_get_docid (plist0 s)"
    obtain r ps where ck: "check_kids ?d0 w (plist_rest s) = (r, ps)"
      by (cases "check_kids ?d0 w (plist_rest s)")
    show ?thesis
    proof (cases r)
      case All_agree
      with False ck show ?thesis by (simp add: find_next_match.simps)
    next
      case Kid_at_end
      with False ck show ?thesis by (simp add: find_next_match.simps)
    next
      case Kid_invalid
      let ?s2 = "next_helper_0 w (s\<lparr>did := ?d0, plist_rest := ps\<rparr>)"
      from Kid_invalid False ck have res: "find_next_match w s = find_next_match w ?s2"
        by (subst find_next_match.simps) simp
      have m: "leaf_measure (plist0 ?s2) < leaf_measure (plist0 s)"
        using leaf_measure_next [OF False, of w] by (simp add: next_helper_0_def)
      from less.hyps [OF m] m show ?thesis by (simp add: res)
    next
      case (Kid_differs nd)
      let ?s3 = "skip_to_helper_0 nd w (s\<lparr>did := ?d0, plist_rest := ps\<rparr>)"
      from Kid_differs False ck have res: "find_next_match w s = find_next_match w ?s3"
        by (subst find_next_match.simps) simp
      from check_kids_differs ck Kid_differs have "?d0 < nd" by simp
      then have m: "leaf_measure (plist0 ?s3) < leaf_measure (plist0 s)"
        using leaf_measure_skip_to [OF False, of nd w] by (simp add: skip_to_helper_0_def)
      from less.hyps [OF m] m show ?thesis by (simp add: res)
    qed
  qed
qed

lemma next_measure:
  assumes "\<not> at_end (MultiAndPostList_next w s)"
  shows "leaf_measure (plist0 (MultiAndPostList_next w s)) < leaf_measure (plist0 s)"
proof (cases "leaf_at_end (plist0 s)")
  case True
  then have "leaf_at_end (plist0 (next_helper_0 w s))"
    by (simp add: next_helper_0_def leaf_next_def leaf_at_end_def)
  then have "did (MultiAndPostList_next w s) = 0"
    by (simp add: MultiAndPostList_next_def find_next_match.simps)
  with assms show ?thesis by (simp add: at_end_def)
next
  case False
  have "leaf_measure (plist0 (MultiAndPostList_next w s))
          \<le> leaf_measure (plist0 (next_helper_0 w s))"
    unfolding MultiAndPostList_next_def by (rule find_next_match_measure)
  also have "\<dots> < leaf_measure (plist0 s)"
    using leaf_measure_next [OF False, of w] by (simp add: next_helper_0_def)
  finally show ?thesis .
qed

text \<open>
  Calling \<open>next\<close> until \<open>at_end\<close>: the list of what is emitted, each docid with the
  docids the children are positioned on at that moment.
\<close>

function emit_all :: "real \<Rightarrow> MultiAndPostList \<Rightarrow> (nat \<times> nat list) list" where
  "emit_all w_min s =
     (let s' = MultiAndPostList_next w_min s
      in if at_end s' then []
         else (get_docid s', map leaf_get_docid (plist s')) # emit_all w_min s')"
  by pat_completeness auto

termination
  by (relation "measure (\<lambda>(w, s). leaf_measure (plist0 s))") (simp_all add: next_measure)

declare emit_all.simps [simp del]

text \<open>\<^verbatim>\<open>recalc_maxweight\<close> and \<^verbatim>\<open>get_weight\<close>, with their loops over the children.\<close>

fun recalc_loop :: "leaf list \<Rightarrow> real list \<times> real \<Rightarrow> real list \<times> real" where
  "recalc_loop [] (mw, mt) = (mw, mt)"
| "recalc_loop (p # ps) (mw, mt) =
     (let new_max = leaf_recalc_maxweight p
      in recalc_loop ps (mw @ [new_max], mt + new_max))"

definition recalc_maxweight :: "MultiAndPostList \<Rightarrow> real \<times> MultiAndPostList" where
  "recalc_maxweight s =
     (case recalc_loop (plist s) ([], 0) of
        (mw, mt) \<Rightarrow> (mt, s\<lparr>max_wt := mw, max_total := mt\<rparr>))"

fun get_weight_loop :: "leaf list \<Rightarrow> nat \<Rightarrow> nat \<Rightarrow> nat \<Rightarrow> real \<Rightarrow> real" where
  "get_weight_loop [] doclen unique_terms wdfdocmax result = result"
| "get_weight_loop (p # ps) doclen unique_terms wdfdocmax result =
     get_weight_loop ps doclen unique_terms wdfdocmax
       (result + leaf_get_weight p doclen unique_terms wdfdocmax)"

definition get_weight :: "MultiAndPostList \<Rightarrow> nat \<Rightarrow> nat \<Rightarrow> nat \<Rightarrow> real" where
  "get_weight s doclen unique_terms wdfdocmax =
     get_weight_loop (plist s) doclen unique_terms wdfdocmax 0"

text \<open>Successive calls of \<open>next\<close>, one per minimum weight of the list.\<close>

fun nexts :: "real list \<Rightarrow> MultiAndPostList \<Rightarrow> MultiAndPostList" where
  "nexts [] s = s"
| "nexts (w_min # ws) s = nexts ws (MultiAndPostList_next w_min s)"

text \<open>
  Scenario S3 of the specification: term A in documents 1, 3, 5, 7 and term B in
  documents 3, 4, 5, 8.
\<close>

definition S3_A :: leaf where
  "S3_A = \<lparr>started = False, todo = [1, 3, 5, 7], lazy_check = False, maxweight = 2,
            weight = (\<lambda>d dl ut wm. 3 / 2)\<rparr>"

definition S3_B :: leaf where
  "S3_B = \<lparr>started = False, todo = [3, 4, 5, 8], lazy_check = True, maxweight = 1,
            weight = (\<lambda>d dl ut wm. 1 / 2)\<rparr>"

definition S3_and :: MultiAndPostList where
  "S3_and = \<lparr>plist0 = S3_A, plist_rest = [S3_B], did = 0, max_wt = [0, 0], max_total = 0\<rparr>"

text \<open>
  Predicates of the correctness proof. A leaf is well formed when its stream is strictly
  increasing and has no docid 0; \<open>in_all ps d\<close> says that \<open>d\<close> is in the stream of every
  leaf of \<open>ps\<close>; \<open>keeps d p p'\<close> that \<open>p'\<close> has the docids of \<open>p\<close> from \<open>d\<close> on.
\<close>

definition wf_leaf :: "leaf \<Rightarrow> bool" where
  "wf_leaf p = (sorted_wrt (<) (todo p) \<and> 0 \<notin> set (todo p))"

definition in_all :: "leaf list \<Rightarrow> nat \<Rightarrow> bool" where
  "in_all ps d = (\<forall>p \<in> set ps. d \<in> set (todo p))"

definition keeps :: "nat \<Rightarrow> leaf \<Rightarrow> leaf \<Rightarrow> bool" where
  "keeps d p p' = (wf_leaf p' \<and> (\<forall>x. d \<le> x \<longrightarrow> (x \<in> set (todo p') \<longleftrightarrow> x \<in> set (todo p))))"

definition check_post :: "nat \<Rightarrow> leaf list \<Rightarrow> check_result \<Rightarrow> leaf list \<Rightarrow> bool" where
  "check_post d ps r ps' =
     (case r of
        All_agree \<Rightarrow> in_all ps d \<and> (\<forall>p' \<in> set ps'. started p' \<and> leaf_get_docid p' = d)
      | Kid_invalid \<Rightarrow> \<not> in_all ps d
      | Kid_at_end \<Rightarrow> (\<exists>p \<in> set ps. \<forall>x. d \<le> x \<longrightarrow> x \<notin> set (todo p))
      | Kid_differs nd \<Rightarrow>
          d < nd \<and> (\<exists>p \<in> set ps. \<forall>x. d \<le> x \<and> x < nd \<longrightarrow> x \<notin> set (todo p)))"

definition fnm_post :: "MultiAndPostList \<Rightarrow> MultiAndPostList \<Rightarrow> bool" where
  "fnm_post s s' =
     (wf_leaf (plist0 s') \<and> started (plist0 s') \<and> (\<forall>p \<in> set (plist_rest s'). wf_leaf p)
      \<and> length (plist_rest s') = length (plist_rest s)
      \<and> (case filter (in_all (plist_rest s)) (todo (plist0 s)) of
            [] \<Rightarrow> did s' = 0
          | d # F' \<Rightarrow>
              did s' = d
              \<and> todo (plist0 s') = filter (\<lambda>x. d \<le> x) (todo (plist0 s))
              \<and> (\<forall>p' \<in> set (plist_rest s'). started p' \<and> leaf_get_docid p' = d)
              \<and> (\<forall>x. d \<le> x \<longrightarrow> in_all (plist_rest s') x = in_all (plist_rest s) x)))"

definition remaining :: "leaf \<Rightarrow> nat list" where
  "remaining p = (if started p then tl (todo p) else todo p)"

section \<open>Honey cursor\<close>

text \<open>
  Bytes are 8-bit words; keys and file contents are lists of bytes. An operation of the
  cursor either returns or fails: by throwing, by calling \<^verbatim>\<open>abort()\<close>, or by running into
  undefined behaviour (writing past the end of a buffer).
\<close>

type_synonym byte = "8 word"

datatype failure = Throw xapian_error | Abort | Undefined_behaviour

text \<open>
  Modelled from the spec: the file handle \<^verbatim>\<open>fh\<close> (the buffered file class of
  honey_table.h, which is not among the sources) is the ``opaque stream'' of bytes the
  cursor reads: the contents of the table file and a position. \<^verbatim>\<open>read()\<close> returns the
  next byte as an \<^verbatim>\<open>int\<close>, or \<^verbatim>\<open>EOF\<close> at the end of the file; \<^verbatim>\<open>read(buf, n)\<close> copies
  the next \<open>n\<close> bytes into \<open>buf\<close>; \<^verbatim>\<open>skip\<close>, \<^verbatim>\<open>set_pos\<close> and \<^verbatim>\<open>rewind\<close> move the
  position. Three things the sources do not tell are fixed here, and no result on what
  the cursor returns or throws rests on them: what \<^verbatim>\<open>read(buf, n)\<close> does when fewer than \<open>n\<close> bytes are left (here it
  copies what is left and leaves the rest of the buffer as it was, NUL for a buffer the
  code does not initialise; the cursor ignores what the call returns), what \<^verbatim>\<open>rewind\<close>
  does with a negative offset, which only an index that the end of the file cuts short
  yields (here it goes to offset 0), and offsets from \<open>2^31\<close> on (see \<open>read_be32\<close>).
  The theorems on what the cursor returns or throws have hypotheses or concrete files
  under which every \<^verbatim>\<open>read(buf, n)\<close> that is reached finds its \<open>n\<close> bytes and every
  offset read from the index is complete and below \<open>2^31\<close>; the termination arguments
  range over all files and use only that reading never moves the position back.
\<close>

record buffered_file =
  data :: "byte list"
  pos :: nat

abbreviation (input) EOF :: int where
  "EOF \<equiv> - 1"

definition fh_read :: "buffered_file \<Rightarrow> int \<times> buffered_file" where
  "fh_read f =
     (if pos f < length (data f) then (uint (data f ! pos f), f\<lparr>pos := pos f + 1\<rparr>)
      else (EOF, f))"

definition fh_read_buf :: "byte list \<Rightarrow> nat \<Rightarrow> buffered_file \<Rightarrow> byte list \<times> buffered_file" where
  "fh_read_buf buf n f =
     (let got = take n (drop (pos f) (data f))
      in (got @ drop (length got) (take n buf), f\<lparr>pos := pos f + length got\<rparr>))"

definition fh_skip :: "nat \<Rightarrow> buffered_file \<Rightarrow> buffered_file" where
  "fh_skip n f = f\<lparr>pos := pos f + n\<rparr>"

definition fh_set_pos :: "nat \<Rightarrow> buffered_file \<Rightarrow> buffered_file" where
  "fh_set_pos p f = f\<lparr>pos := p\<rparr>"

definition fh_rewind :: "int \<Rightarrow> buffered_file \<Rightarrow> buffered_file" where
  "fh_rewind p f = f\<lparr>pos := nat p\<rparr>"

definition fh_get_pos :: "buffered_file \<Rightarrow> nat" where
  "fh_get_pos f = pos f"

text \<open>
  The four reads \<^verbatim>\<open>fh.read() << 24 | fh.read() << 16 | fh.read() << 8 | fh.read()\<close>,
  on unbounded integers: the 32-bit \<^verbatim>\<open>int\<close> that the code shifts wraps to a negative
  number for an offset from \<open>2^31\<close> on, which the model does not follow.
\<close>

definition read_be32 :: "buffered_file \<Rightarrow> int \<times> buffered_file" where
  "read_be32 f =
     (case fh_read f of (b3, f1) \<Rightarrow>
      case fh_read f1 of (b2, f2) \<Rightarrow>
      case fh_read f2 of (b1, f3) \<Rightarrow>
      case fh_read f3 of (b0, f4) \<Rightarrow>
        (push_bit 24 b3 OR push_bit 16 b2 OR push_bit 8 b1 OR b0, f4))"

text \<open>
  Modelled from the spec: \<^verbatim>\<open>unpack_uint\<close> (pack.h, not among the sources) decodes the
  ``varint'' of the entry layout from a buffer: seven bits per byte, least significant
  group first, the last byte below 128. It fails when the buffer ends before such a byte;
  otherwise it returns the number and the rest of the buffer.
\<close>

fun unpack_uint :: "byte list \<Rightarrow> (nat \<times> byte list) option" where
  "unpack_uint [] = None"
| "unpack_uint (b # bs) =
     (if b < 128 then Some (unat b, bs)
      else (case unpack_uint bs of
              None \<Rightarrow> None
            | Some (v, rest) \<Rightarrow> Some (unat (b AND 127) + 128 * v, rest)))"

text \<open>
  \<^verbatim>\<open>std::string::compare\<close>, bytes compared as unsigned: negative, zero or positive.
  \<open>char_at_0\<close> is \<^verbatim>\<open>s[0]\<close>, which is NUL for the empty string.
\<close>

fun string_compare :: "byte list \<Rightarrow> byte list \<Rightarrow> int" where
  "string_compare [] [] = 0"
| "string_compare [] (b # bs) = - 1"
| "string_compare (a # as) [] = 1"
| "string_compare (a # as) (b # bs) =
     (if a < b then - 1 else if b < a then 1 else string_compare as bs)"

definition char_at_0 :: "byte list \<Rightarrow> byte" where
  "char_at_0 s = (case s of [] \<Rightarrow> 0 | ch # _ \<Rightarrow> ch)"

record HoneyCursor =
  fh :: buffered_file
  root :: nat
  is_at_end :: bool
  val_size :: nat
  last_key :: "byte list"
  current_key :: "byte list"
  current_tag :: "byte list"
  current_compressed :: bool

text \<open>
  \<^verbatim>\<open>next_from_index\<close>: the loop that reads at most 8 bytes of the value size, and the
  decoding.
\<close>

fun read_val_size_bytes :: "nat \<Rightarrow> buffered_file \<Rightarrow> byte list \<times> buffered_file" where
  "read_val_size_bytes 0 f = ([], f)"
| "read_val_size_bytes (Suc i) f =
     (case fh_read f of (ch2, f') \<Rightarrow>
        if ch2 = EOF then ([], f')
        else if ch2 < 128 then ([word_of_int ch2], f')
        else (case read_val_size_bytes i f' of (bs, f'') \<Rightarrow> (word_of_int ch2 # bs, f'')))"

definition next_from_index :: "HoneyCursor \<Rightarrow> failure + bool \<times> HoneyCursor" where
  "next_from_index c =
     (case read_val_size_bytes 8 (fh c) of (buf, f) \<Rightarrow>
        (case unpack_uint buf of
           None \<Rightarrow> Inl (Throw DatabaseError)
         | Some (v, rest) \<Rightarrow>
             if rest \<noteq> [] then Inl Abort
             else
               let c1 = c\<lparr>fh := f, current_compressed := odd v, val_size := v div 2\<rparr>;
                   c2 = (if val_size c1 = 0 then c1\<lparr>current_tag := []\<rparr> else c1)
               in Inr (True, c2\<lparr>is_at_end := False\<rparr>)))"

text \<open>
  \<^verbatim>\<open>HoneyCursor::next\<close>. \<^verbatim>\<open>Assert\<close> is compiled out. \<open>read_key\<close> is the tail of the
  function, from \<^verbatim>\<open>size_t key_size = ch\<close> on.
\<close>

definition read_key :: "nat \<Rightarrow> nat \<Rightarrow> buffered_file \<Rightarrow> HoneyCursor \<Rightarrow> failure + bool \<times> HoneyCursor" where
  "read_key reuse key_size f c =
     (case fh_read_buf (replicate 256 0) key_size f of (buf, f') \<Rightarrow>
        let k = take reuse (last_key c) @ buf
        in next_from_index (c\<lparr>fh := f', current_key := k, last_key := k\<rparr>))"

definition HoneyCursor_next :: "HoneyCursor \<Rightarrow> failure + bool \<times> HoneyCursor" where
  "HoneyCursor_next c =
     (if is_at_end c then Inr (False, c)
      else
        let c1 = (if val_size c \<noteq> 0 then c\<lparr>fh := fh_skip (val_size c) (fh c), val_size := 0\<rparr>
                  else c)
        in if fh_get_pos (fh c1) \<ge> root c1 then Inr (False, c1\<lparr>is_at_end := True\<rparr>)
           else
             (case fh_read (fh c1) of (ch, f1) \<Rightarrow>
                if ch = EOF then Inl (Throw DatabaseCorruptError)
                else if last_key c1 \<noteq> [] then
                  (case fh_read f1 of (ch', f2) \<Rightarrow>
                     if ch' = EOF then Inl (Throw DatabaseError)
                     else read_key (nat ch) (nat ch') f2 c1)
                else read_key 0 (nat ch) f1 c1))"

text \<open>Reading never moves the position back, and a byte read moves it on.\<close>

lemma fh_read_pos: "fh_read f = (ch, f') \<Longrightarrow> data f' = data f \<and> pos f \<le> pos f' \<and> (ch \<noteq> EOF \<longrightarrow> pos f < pos f')"
  by (auto simp: fh_read_def split: if_splits)

lemma fh_read_buf_pos: "fh_read_buf b n f = (buf, f') \<Longrightarrow> data f' = data f \<and> pos f \<le> pos f'"
  by (auto simp: fh_read_buf_def Let_def)

lemma read_val_size_bytes_pos:
  "read_val_size_bytes i f = (bs, f') \<Longrightarrow> data f' = data f \<and> pos f \<le> pos f'"
proof (induction i arbitrary: f bs f')
  case 0 then show ?case by simp
next
  case (Suc i)
  obtain ch f1 where r: "fh_read f = (ch, f1)" by (cases "fh_read f")
  obtain bs2 f2 where v: "read_val_size_bytes i f1 = (bs2, f2)" by (cases "read_val_size_bytes i f1")
  from Suc.prems r v have "f' = f1 \<or> f' = f2" by (auto split: if_splits)
  with fh_read_pos [OF r] Suc.IH [OF v] show ?case by auto
qed

lemma next_from_index_pos:
  assumes "next_from_index c = Inr (b, c')"
  shows "root c' = root c \<and> data (fh c') = data (fh c) \<and> pos (fh c) \<le> pos (fh c')"
proof -
  obtain buf f where r: "read_val_size_bytes 8 (fh c) = (buf, f)"
    by (cases "read_val_size_bytes 8 (fh c)")
  with assms have "fh c' = f" "root c' = root c"
    by (auto simp: next_from_index_def Let_def split: option.splits if_splits)
  with read_val_size_bytes_pos [OF r] show ?thesis by simp
qed

lemma read_key_pos:
  assumes "read_key reuse n f c = Inr (b, c')"
  shows "root c' = root c \<and> data (fh c') = data f \<and> pos f \<le> pos (fh c')"
proof -
  obtain buf f1 where r: "fh_read_buf (replicate 256 0) n f = (buf, f1)"
    by (cases "fh_read_buf (replicate 256 0) n f")
  with assms next_from_index_pos [of _ b c'] fh_read_buf_pos [OF r] show ?thesis
    by (fastforce simp: read_key_def Let_def)
qed

lemma HoneyCursor_next_advances:
  assumes "HoneyCursor_next c = Inr (True, c')"
  shows "root c' = root c \<and> data (fh c') = data (fh c) \<and> pos (fh c) < pos (fh c')
         \<and> pos (fh c) < root c"
proof -
  let ?c1 = "if val_size c \<noteq> 0 then c\<lparr>fh := fh_skip (val_size c) (fh c), val_size := 0\<rparr> else c"
  from assms have e: "\<not> is_at_end c" and lt: "pos (fh ?c1) < root ?c1"
    by (auto simp: HoneyCursor_next_def Let_def fh_get_pos_def split: if_splits)
  have p1: "pos (fh c) \<le> pos (fh ?c1)" "root ?c1 = root c" "data (fh ?c1) = data (fh c)"
    by (simp_all add: fh_skip_def)
  obtain ch f1 where r1: "fh_read (fh ?c1) = (ch, f1)" by (cases "fh_read (fh ?c1)")
  from assms e lt r1 have ne: "ch \<noteq> EOF"
    by (auto simp: HoneyCursor_next_def Let_def fh_get_pos_def split: if_splits)
  note a1 = fh_read_pos [OF r1]
  show ?thesis
  proof (cases "last_key ?c1 \<noteq> []")
    case False
    with assms e lt r1 ne have "read_key 0 (nat ch) f1 ?c1 = Inr (True, c')"
      by (auto simp: HoneyCursor_next_def Let_def fh_get_pos_def split: if_splits)
    from read_key_pos [OF this] a1 ne p1 lt show ?thesis by auto
  next
    case True
    obtain ch' f2 where r2: "fh_read f1 = (ch', f2)" by (cases "fh_read f1")
    with assms e lt r1 ne True have "read_key (nat ch) (nat ch') f2 ?c1 = Inr (True, c')"
      by (auto simp: HoneyCursor_next_def Let_def fh_get_pos_def split: if_splits)
    from read_key_pos [OF this] a1 fh_read_pos [OF r2] ne p1 lt show ?thesis by auto
  qed
qed

text \<open>The \<^verbatim>\<open>while (next())\<close> loop that ends \<^verbatim>\<open>do_find\<close>.\<close>

function find_loop :: "byte list \<Rightarrow> HoneyCursor \<Rightarrow> failure + bool \<times> HoneyCursor" where
  "find_loop key c =
     (case HoneyCursor_next c of
        Inl e \<Rightarrow> Inl e
      | Inr (res, c') \<Rightarrow>
          if \<not> res then Inr (False, c')
          else
            let cmp = string_compare (current_key c') key
            in if cmp = 0 then Inr (True, c')
               else if cmp > 0 then Inr (False, c')
               else find_loop key c')"
  by pat_completeness auto
termination
proof (relation "measure (\<lambda>(key, c). root c - pos (fh c))", goal_cases)
  case 1 show ?case by simp
next
  case 2
  then show ?case
    using HoneyCursor_next_advances by fastforce
qed

declare find_loop.simps [simp del]


text \<open>
  The macro is defined in honey_table.h, not among the sources; the literal 4 that
  \<^verbatim>\<open>do_find\<close> assigns to \<^verbatim>\<open>kkey_len\<close> is its value. \<open>kkey_length\<close> is the loop that drops
  the trailing NUL bytes of \<^verbatim>\<open>kkey\<close>.
\<close>

definition SSINDEX_BINARY_CHOP_KEY_SIZE :: nat where
  "SSINDEX_BINARY_CHOP_KEY_SIZE = 4"

definition kkey_length :: "byte list \<Rightarrow> nat" where
  "kkey_length kkey = length (dropWhile (\<lambda>b. b = 0) (rev (take 4 kkey)))"

text \<open>The binary chop \<^verbatim>\<open>while (j - i > 1)\<close> of index type 0x01.\<close>

function binary_chop ::
  "byte list \<Rightarrow> nat \<Rightarrow> nat \<Rightarrow> nat \<Rightarrow> byte list \<Rightarrow> buffered_file \<Rightarrow>
   nat \<times> byte list \<times> buffered_file" where
  "binary_chop key base i j kkey f =
     (if j - i > 1 then
        let k = i + (j - i) div 2;
            f1 = fh_set_pos (base + k * (SSINDEX_BINARY_CHOP_KEY_SIZE + 4)) f
        in case fh_read_buf kkey SSINDEX_BINARY_CHOP_KEY_SIZE f1 of (kkey', f2) \<Rightarrow>
             let kkey_len = kkey_length kkey';
                 r = string_compare (take SSINDEX_BINARY_CHOP_KEY_SIZE key) (take kkey_len kkey')
             in if r < 0 then binary_chop key base i k kkey' f2
                else if r = 0 then (k, kkey', f2)
                else binary_chop key base k j kkey' f2
      else (i, kkey, f))"
  by pat_completeness auto
termination
  by (relation "measure (\<lambda>(key, base, i, j, kkey, f). j - i)") auto

declare binary_chop.simps [simp del]

text \<open>
  Index type 0x02. The inner loop copies the bytes of the offset into \<^verbatim>\<open>char buf[8]\<close>
  until a byte has its top bit clear; at the end of the file \<^verbatim>\<open>EOF\<close> has the bit set, so
  the loop goes on and writes past the buffer, as it does after 8 bytes.
\<close>

fun skiplist_ptr_bytes :: "nat \<Rightarrow> buffered_file \<Rightarrow> failure + byte list \<times> buffered_file" where
  "skiplist_ptr_bytes 0 f = Inl Undefined_behaviour"
| "skiplist_ptr_bytes (Suc n) f =
     (case fh_read f of (b, f') \<Rightarrow>
        if b = EOF then Inl Undefined_behaviour
        else if b AND 128 = 0 then Inr ([word_of_int b], f')
        else (case skiplist_ptr_bytes n f' of
                Inl e \<Rightarrow> Inl e
              | Inr (bs, f'') \<Rightarrow> Inr (word_of_int b # bs, f'')))"

lemma skiplist_ptr_bytes_pos:
  "skiplist_ptr_bytes n f = Inr (bs, f') \<Longrightarrow> data f' = data f \<and> pos f \<le> pos f'"
proof (induction n arbitrary: f bs f')
  case 0 then show ?case by simp
next
  case (Suc n)
  obtain b f1 where r: "fh_read f = (b, f1)" by (cases "fh_read f")
  show ?case
  proof (cases "skiplist_ptr_bytes n f1")
    case (Inl e)
    with Suc.prems r have "f' = f1" by (auto split: if_splits)
    with fh_read_pos [OF r] show ?thesis by simp
  next
    case (Inr x)
    obtain bs2 f2 where x: "x = (bs2, f2)" by (cases x)
    from Suc.prems r Inr x have "f' = f1 \<or> f' = f2" by (auto split: if_splits)
    with fh_read_pos [OF r] Suc.IH [of f1 bs2 f2] Inr x show ?thesis by auto
  qed
qed

lemma skiplist_step_pos:
  assumes "(reuse, f1) = fh_read f" and "reuse \<noteq> EOF" and "(len, f2) = fh_read f1"
    and "(buf, f3) = fh_read_buf b n f2" and "skiplist_ptr_bytes m f3 = Inr x"
    and "(bs, f4) = x"
  shows "length (data f4) - pos f4 < length (data f) - pos f"
proof -
  from assms have r1: "fh_read f = (reuse, f1)" and r2: "fh_read f1 = (len, f2)"
    and r3: "fh_read_buf b n f2 = (buf, f3)" and r4: "skiplist_ptr_bytes m f3 = Inr (bs, f4)"
    by simp_all
  from r1 assms(2) have "pos f < length (data f)" by (auto simp: fh_read_def split: if_splits)
  moreover from fh_read_pos [OF r1] assms(2) fh_read_pos [OF r2] fh_read_buf_pos [OF r3]
      skiplist_ptr_bytes_pos [OF r4]
  have "pos f < pos f4" "data f4 = data f" by auto
  ultimately show ?thesis by simp
qed

function skiplist_loop ::
  "byte list \<Rightarrow> buffered_file \<Rightarrow> byte list \<Rightarrow> byte list \<Rightarrow> nat \<Rightarrow> int \<Rightarrow>
   failure + buffered_file \<times> byte list \<times> nat \<times> int" where
  "skiplist_loop key f index_key prev_index_key ptr cmp0 =
     (case fh_read f of (reuse, f1) \<Rightarrow>
        if reuse = EOF then Inr (f1, index_key, ptr, cmp0)
        else
          (case fh_read f1 of (len, f2) \<Rightarrow>
             if len = EOF then Inl Abort
             else
               let resized = take (nat reuse + nat len)
                               (index_key @ replicate (nat reuse + nat len) 0)
               in case fh_read_buf (drop (nat reuse) resized) (nat len) f2 of (buf, f3) \<Rightarrow>
                    let index_key' = take (nat reuse) resized @ buf;
                        cmp0' = string_compare index_key' key
                    in if cmp0' > 0 then Inr (f3, prev_index_key, ptr, cmp0')
                       else
                         (case skiplist_ptr_bytes 8 f3 of
                            Inl e \<Rightarrow> Inl e
                          | Inr (bs, f4) \<Rightarrow>
                              (case unpack_uint bs of
                                 None \<Rightarrow> Inl Abort
                               | Some (ptr', rest) \<Rightarrow>
                                   if rest \<noteq> [] then Inl Abort
                                   else if cmp0' = 0 then Inr (f4, index_key', ptr', cmp0')
                                   else skiplist_loop key f4 index_key' index_key' ptr' cmp0'))))"
  by pat_completeness auto
termination
proof (relation "measure (\<lambda>(key, f, ik, pk, ptr, cmp0). length (data f) - pos f)", goal_cases)
  case 1 show ?case by simp
next
  case 2
  then show ?case
    by (simp only: in_measure prod.case) (erule (3) skiplist_step_pos, assumption+)
qed

declare skiplist_loop.simps [simp del]

text \<open>
  The three cases of the \<^verbatim>\<open>switch (index_type)\<close>. Each returns \<open>Some result\<close> where
  \<^verbatim>\<open>do_find\<close> returns from inside the switch, and \<open>None\<close> where it goes on to the data
  layer.
\<close>

definition find_index_array ::
  "byte list \<Rightarrow> buffered_file \<Rightarrow> HoneyCursor \<Rightarrow> failure + bool option \<times> HoneyCursor" where
  "find_index_array key f c =
     (case fh_read f of (b, f1) \<Rightarrow>
        let first = (char_at_0 key - word_of_int b :: byte)
        in case fh_read f1 of (r, f2) \<Rightarrow>
             let range = (word_of_int r :: byte)
             in if first > range then Inr (Some False, c\<lparr>fh := f2, is_at_end := True\<rparr>)
                else
                  let f3 = fh_skip (unat first * 4) f2
                  in case read_be32 f3 of (jump, f4) \<Rightarrow>
                       Inr (None, c\<lparr>fh := fh_rewind jump f4, last_key := []\<rparr>))"

definition find_index_binary_chop ::
  "byte list \<Rightarrow> buffered_file \<Rightarrow> HoneyCursor \<Rightarrow> failure + bool option \<times> HoneyCursor" where
  "find_index_binary_chop key f c =
     (case read_be32 f of (j0, f1) \<Rightarrow>
        let j = nat (j0 mod 2 ^ 64)
        in if j = 0 then Inr (Some False, c\<lparr>fh := f1, is_at_end := True\<rparr>)
           else
             let base = fh_get_pos f1
             in case binary_chop key base 0 j (replicate SSINDEX_BINARY_CHOP_KEY_SIZE 0) f1 of
                  (i, kkey, f2) \<Rightarrow>
                    let f3 = fh_set_pos (base + i * (SSINDEX_BINARY_CHOP_KEY_SIZE + 4)) f2
                    in case fh_read_buf kkey SSINDEX_BINARY_CHOP_KEY_SIZE f3 of (kkey', f4) \<Rightarrow>
                         let kkey_len = kkey_length kkey'
                         in case read_be32 f4 of (jump, f5) \<Rightarrow>
                              Inr (None, c\<lparr>fh := fh_rewind jump f5,
                                            last_key := take (if jump = 0 then 0 else kkey_len) kkey'\<rparr>))"

definition find_index_skiplist ::
  "byte list \<Rightarrow> buffered_file \<Rightarrow> HoneyCursor \<Rightarrow> failure + bool option \<times> HoneyCursor" where
  "find_index_skiplist key f c =
     (case skiplist_loop key f [] [] 0 1 of
        Inl e \<Rightarrow> Inl e
      | Inr (f1, index_key, ptr, cmp0) \<Rightarrow>
          let f2 = fh_set_pos ptr f1
          in if ptr \<noteq> 0 then
               (case next_from_index (c\<lparr>fh := f2, last_key := index_key, current_key := index_key\<rparr>) of
                  Inl e \<Rightarrow> Inl e
                | Inr (res, c1) \<Rightarrow>
                    if cmp0 = 0 then Inr (Some True, c1)
                    else Inr (None, c1\<lparr>fh := fh_skip (val_size c1) (fh c1)\<rparr>))
             else Inr (None, c\<lparr>fh := f2, last_key := [], current_key := []\<rparr>))"

definition find_index ::
  "byte list \<Rightarrow> HoneyCursor \<Rightarrow> failure + bool option \<times> HoneyCursor" where
  "find_index key c =
     (case fh_read (fh_rewind (int (root c)) (fh c)) of (index_type, f) \<Rightarrow>
        if index_type = 0 then find_index_array key f c
        else if index_type = 1 then find_index_binary_chop key f c
        else if index_type = 2 then find_index_skiplist key f c
        else Inl (Throw DatabaseCorruptError))"

text \<open>
  \<^verbatim>\<open>HoneyCursor::do_find\<close>. The parameter \<open>greater_than\<close> is not used, as in the source.
\<close>

definition do_find :: "byte list \<Rightarrow> bool \<Rightarrow> HoneyCursor \<Rightarrow> failure + bool \<times> HoneyCursor" where
  "do_find key greater_than c =
     (let same_first = (\<not> is_at_end c \<and> last_key c \<noteq> []
                        \<and> char_at_0 (last_key c) = char_at_0 key);
          cmp0 = string_compare (last_key c) key
      in if same_first \<and> cmp0 = 0 then Inr (True, c\<lparr>current_key := last_key c\<rparr>)
         else if same_first \<and> cmp0 < 0 then find_loop key c
         else
           (case find_index key c of
              Inl e \<Rightarrow> Inl e
            | Inr (Some result, c') \<Rightarrow> Inr (result, c')
            | Inr (None, c') \<Rightarrow> find_loop key (c'\<lparr>is_at_end := False, val_size := 0\<rparr>)))"

text \<open>A cursor on a table file with its root offset, before the first entry.\<close>

definition rewound_cursor :: "byte list \<Rightarrow> nat \<Rightarrow> HoneyCursor" where
  "rewound_cursor file_data root_offset =
     \<lparr>fh = \<lparr>data = file_data, pos = 0\<rparr>, root = root_offset, is_at_end = False, val_size = 0,
      last_key = [], current_key = [], current_tag = [], current_compressed = False\<rparr>"

text \<open>
  Where the entry that \<open>next\<close> reads starts; a value-size varint that the end of the
  file cuts short (the key bytes are complete and end at offset \<open>q\<close> within the file,
  fewer than 8 bytes follow and none of them ends the varint); whether \<open>do_find\<close> goes
  to the index; and the index-type byte at the root, if the file has one.
\<close>

definition entry_start :: "HoneyCursor \<Rightarrow> nat" where
  "entry_start c = pos (fh c) + val_size c"

definition value_size_cut_short :: "byte list \<Rightarrow> nat \<Rightarrow> bool" where
  "value_size_cut_short d q =
     (q \<le> length d \<and> length d - q < 8 \<and> (\<forall>b \<in> set (drop q d). 128 \<le> b))"

definition consults_index :: "byte list \<Rightarrow> HoneyCursor \<Rightarrow> bool" where
  "consults_index key c =
     (\<not> (\<not> is_at_end c \<and> last_key c \<noteq> [] \<and> char_at_0 (last_key c) = char_at_0 key
         \<and> string_compare (last_key c) key \<le> 0))"

definition index_type_byte :: "HoneyCursor \<Rightarrow> byte option" where
  "index_type_byte c =
     (if root c < length (data (fh c)) then Some (data (fh c) ! root c) else None)"

text \<open>A cursor positioned after the entry with key \<open>k\<close>, which has no value.\<close>

definition positioned_cursor :: "byte list \<Rightarrow> nat \<Rightarrow> nat \<Rightarrow> byte list \<Rightarrow> HoneyCursor" where
  "positioned_cursor file_data root_offset p k =
     \<lparr>fh = \<lparr>data = file_data, pos = p\<rparr>, root = root_offset, is_at_end = False, val_size = 0,
      last_key = k, current_key = k, current_tag = [], current_compressed = False\<rparr>"

text \<open>
  Scenario S6 of the specification: tables with identical content (the keys \<open>b\<close>, \<open>bc\<close>
  with the value \<open>xy\<close>, and \<open>d\<close>) and index types 0x00, 0x01 and 0x02. The entries take
  13 bytes, so the root is at offset 13.
\<close>

definition S6_entries :: "byte list" where
  "S6_entries = [1, 0x62, 0,   1, 1, 0x63, 4, 0x78, 0x79,   0, 1, 0x64, 0]"

definition S6_array :: "byte list" where
  "S6_array = S6_entries @ [0, 0x62, 2,  0, 0, 0, 0,  0, 0, 0, 10,  0, 0, 0, 10]"

definition S6_binary_chop :: "byte list" where
  "S6_binary_chop =
     S6_entries @ [1, 0, 0, 0, 2,  0x62, 0, 0, 0,  0, 0, 0, 0,  0x64, 0, 0, 0,  0, 0, 0, 9]"

definition S6_skiplist :: "byte list" where
  "S6_skiplist = S6_entries @ [2,  0, 1, 0x62, 2,  0, 1, 0x64, 12]"

text \<open>What a call gave: the failure, or the result, \<open>is_at_end\<close> and the current key.\<close>

definition outcome ::
  "failure + bool \<times> HoneyCursor \<Rightarrow> failure + bool \<times> bool \<times> byte list" where
  "outcome r =
     (case r of Inl e \<Rightarrow> Inl e | Inr (found, c) \<Rightarrow> Inr (found, is_at_end c, current_key c))"

section \<open>Theorems\<close>

subsection \<open>OpenDocMetaParser\<close>

lemma process_content_field [simp]: "field (process_content pd c p) = field p"
  by (simp add: process_content_def split: field_t.splits)

lemma process_content_step:
  assumes "f \<in> {KEYWORDS, TITLE, SAMPLE, AUTHOR}" and "field p = f"
  shows "field_value f (process_content pd c p) =
           (if field_value f p = [] then c else field_value f p @ '' '' @ c)"
  using assms by (auto simp: process_content_def)

lemma process_contents_nonempty:
  assumes "f \<in> {KEYWORDS, TITLE, SAMPLE, AUTHOR}" and "field p = f" and "field_value f p \<noteq> []"
  shows "field_value f (process_contents pd cs p) =
           field_value f p @ concat (map (\<lambda>c. '' '' @ c) cs)"
  using assms
proof (induction cs arbitrary: p)
  case Nil
  then show ?case by simp
next
  case (Cons c cs)
  let ?q = "process_content pd c p"
  have v: "field_value f ?q = field_value f p @ '' '' @ c"
    using process_content_step [OF Cons.prems(1,2)] Cons.prems(3) by simp
  have "field_value f (process_contents pd cs ?q) =
          field_value f ?q @ concat (map (\<lambda>c. '' '' @ c) cs)"
    by (rule Cons.IH) (use Cons.prems v in simp_all)
  then show ?case by (simp add: v)
qed

lemma space_separated_Cons:
  "c # cs \<noteq> [] \<Longrightarrow> space_separated (c # cs) = c @ concat (map (\<lambda>d. '' '' @ d) cs)"
  by (induction cs arbitrary: c) auto

lemma process_contents_empty:
  assumes "f \<in> {KEYWORDS, TITLE, SAMPLE, AUTHOR}" and "field p = f" and "field_value f p = []"
  shows "field_value f (process_contents pd cs p) =
           space_separated (dropWhile (\<lambda>c. c = []) cs)"
  using assms
proof (induction cs arbitrary: p)
  case Nil
  then show ?case by simp
next
  case (Cons c cs)
  let ?q = "process_content pd c p"
  have v: "field_value f ?q = c"
    using process_content_step [OF Cons.prems(1,2)] Cons.prems(3) by simp
  show ?case
  proof (cases "c = []")
    case True
    have "field_value f (process_contents pd cs ?q) =
            space_separated (dropWhile (\<lambda>c. c = []) cs)"
      by (rule Cons.IH) (use Cons.prems v True in simp_all)
    with True show ?thesis by simp
  next
    case False
    have "field_value f (process_contents pd cs ?q) =
            field_value f ?q @ concat (map (\<lambda>c. '' '' @ c) cs)"
      by (rule process_contents_nonempty) (use Cons.prems v False in simp_all)
    with False v show ?thesis by (simp add: space_separated_Cons)
  qed
qed

text \<open>
  Claim C10, as stated, at the fragments \<open>[\<close>empty\<open>, a]\<close>: the field ends as \<open>a\<close>, while the
  space-separated concatenation of the two fragments is a space followed by \<open>a\<close>. A leading
  empty fragment meets an empty field, so no separator is written for it.
\<close>

theorem C10_leading_empty_fragment_counterexample:
  "keywords_str (process_contents (\<lambda>_. 0) [[], ''a''] (empty_parser\<lparr>field := KEYWORDS\<rparr>)) = ''a''
   \<and> space_separated [[], ''a''] = '' a''
   \<and> keywords_str (process_contents (\<lambda>_. 0) [[], ''a''] (empty_parser\<lparr>field := KEYWORDS\<rparr>))
       \<noteq> space_separated [[], ''a'']"
  by (simp add: process_content_def empty_parser_def)

text \<open>
  Claim C10, amended. For each of the fields keywords, title, sample and author,
  \<open>process_content\<close> appends the fragment to the field's value, with exactly one space
  before it if and only if the value was non-empty, so the old value is always a prefix of
  the new one. Processing \<open>f1..fn\<close> in order on an empty field yields the space-separated
  concatenation of the fragments from the first non-empty one on (leading empty fragments
  contribute nothing, later empty fragments contribute only a separator); on a non-empty
  field every fragment is appended after one space.
\<close>

theorem C10_process_content_accumulates:
  assumes "f \<in> {KEYWORDS, TITLE, SAMPLE, AUTHOR}" and "field p = f"
  shows "field_value f (process_content pd c p) =
           (if field_value f p = [] then c else field_value f p @ '' '' @ c)
         \<and> prefix (field_value f p) (field_value f (process_content pd c p))
         \<and> field_value f (process_contents pd cs p) =
           (if field_value f p = [] then space_separated (dropWhile (\<lambda>c. c = []) cs)
            else field_value f p @ concat (map (\<lambda>c. '' '' @ c) cs))"
proof -
  have 1: "field_value f (process_content pd c p) =
             (if field_value f p = [] then c else field_value f p @ '' '' @ c)"
    by (rule process_content_step [OF assms])
  have 2: "prefix (field_value f p) (field_value f (process_content pd c p))"
    by (simp add: 1)
  have 3: "field_value f (process_contents pd cs p) =
           (if field_value f p = [] then space_separated (dropWhile (\<lambda>c. c = []) cs)
            else field_value f p @ concat (map (\<lambda>c. '' '' @ c) cs))"
    using process_contents_empty [OF assms] process_contents_nonempty [OF assms] by simp
  from 1 2 3 show ?thesis by blast
qed

theorem C10_process_content_accumulates_witness:
  "title (process_contents (\<lambda>_. 0) [[], ''a'', [], ''b''] (empty_parser\<lparr>field := TITLE\<rparr>))
     = ''a  b''
   \<and> title (process_content (\<lambda>_. 0) ''c'' (empty_parser\<lparr>field := TITLE, title := ''x''\<rparr>))
     = ''x c''"
proof -
  have f: "TITLE \<in> {KEYWORDS, TITLE, SAMPLE, AUTHOR}" by simp
  have a: "field (empty_parser\<lparr>field := TITLE\<rparr>) = TITLE" by simp
  have b: "field (empty_parser\<lparr>field := TITLE, title := ''x''\<rparr>) = TITLE" by simp
  show ?thesis
    using C10_process_content_accumulates [OF f a, where pd = "\<lambda>_. 0" and c = "[]"
            and cs = "[[], ''a'', [], ''b'']"]
          C10_process_content_accumulates [OF f b, where pd = "\<lambda>_. 0" and c = "''c''"
            and cs = "[]"]
    by (simp add: empty_parser_def)
qed

subsection \<open>Writable database handle\<close>

text \<open>
  Claim C8. Assigning an \<open>OmDatabase\<close> into an \<open>OmWritableDatabase\<close> succeeds exactly when
  the source is writable, and then the target holds the source's database pointer; when the
  source is read-only the assignment throws the invalid-argument error and the target,
  with its database pointer, is as before.
\<close>

theorem C8_assign_writable_only:
  "(fst (assign_OmDatabase this other) = Inr () \<longleftrightarrow> is_writable other)
   \<and> (is_writable other \<longrightarrow>
        mydb (snd (assign_OmDatabase this other)) = mydb other)
   \<and> (\<not> is_writable other \<longrightarrow>
        assign_OmDatabase this other = (Inl OmInvalidArgumentError, this))"
  by (simp add: assign_OmDatabase_def)

theorem C8_assign_writable_only_witness:
  "assign_OmDatabase \<lparr>is_writable = True, mydb = (1::nat)\<rparr> \<lparr>is_writable = False, mydb = 2\<rparr>
     = (Inl OmInvalidArgumentError, \<lparr>is_writable = True, mydb = 1\<rparr>)
   \<and> mydb (snd (assign_OmDatabase \<lparr>is_writable = True, mydb = (1::nat)\<rparr>
                  \<lparr>is_writable = True, mydb = 2\<rparr>)) = 2"
  using C8_assign_writable_only [of "\<lparr>is_writable = True, mydb = (1::nat)\<rparr>"
          "\<lparr>is_writable = False, mydb = 2\<rparr>"]
        C8_assign_writable_only [of "\<lparr>is_writable = True, mydb = (1::nat)\<rparr>"
          "\<lparr>is_writable = True, mydb = 2\<rparr>"]
  by simp

lemma check_terms_Some:
  "check_terms ts = Some e \<longleftrightarrow> e = OmInvalidArgumentError \<and> (\<exists>t \<in> set ts. tname (snd t) = [])"
  by (induction ts) auto

lemma check_terms_None: "check_terms ts = None \<longleftrightarrow> (\<forall>t \<in> set ts. tname (snd t) \<noteq> [])"
  by (induction ts) auto

text \<open>
  Claim C9. \<open>add_document\<close> throws the invalid-argument error whenever some term of the
  document has a name of zero length, and then, whatever the underlying database would do,
  it is not consulted and the handle is unchanged; when every term name is non-empty the
  call is what the underlying database's \<open>add_document\<close> gives: its docid is returned (or
  its error passed on).
\<close>

theorem C9_add_document_checks_terms:
  "((\<exists>t \<in> set (terms document). length (tname (snd t)) = 0) \<longrightarrow>
      (\<forall>db_add. add_document db_add document timeout this = (Inl OmInvalidArgumentError, this)))
   \<and> ((\<forall>t \<in> set (terms document). length (tname (snd t)) \<noteq> 0) \<longrightarrow>
        (\<forall>did db'. db_add document timeout (mydb this) = Inr (did, db') \<longrightarrow>
           add_document db_add document timeout this = (Inr did, this\<lparr>mydb := db'\<rparr>))
        \<and> (\<forall>e. db_add document timeout (mydb this) = Inl e \<longrightarrow>
           add_document db_add document timeout this = (Inl e, this)))"
proof (intro conjI impI allI)
  fix db_add' :: "OmDocumentContents \<Rightarrow> nat \<Rightarrow> 'a \<Rightarrow> om_error + nat \<times> 'a"
  assume "\<exists>t \<in> set (terms document). length (tname (snd t)) = 0"
  then have "check_terms (terms document) = Some OmInvalidArgumentError"
    by (simp add: check_terms_Some)
  then show "add_document db_add' document timeout this = (Inl OmInvalidArgumentError, this)"
    by (simp add: add_document_def)
next
  fix did db'
  assume "\<forall>t \<in> set (terms document). length (tname (snd t)) \<noteq> 0"
    and r: "db_add document timeout (mydb this) = Inr (did, db')"
  then have "check_terms (terms document) = None"
    by (simp add: check_terms_None)
  with r show "add_document db_add document timeout this = (Inr did, this\<lparr>mydb := db'\<rparr>)"
    by (simp add: add_document_def)
next
  fix e
  assume "\<forall>t \<in> set (terms document). length (tname (snd t)) \<noteq> 0"
    and r: "db_add document timeout (mydb this) = Inl e"
  then have "check_terms (terms document) = None"
    by (simp add: check_terms_None)
  with r show "add_document db_add document timeout this = (Inl e, this)"
    by (simp add: add_document_def)
qed

theorem C9_add_document_checks_terms_witness:
  "add_document (\<lambda>d t (db::nat). Inr (db + 1, db + 1))
     \<lparr>terms = [(''a'', \<lparr>tname = ''a'', wdf = 1\<rparr>), (''b'', \<lparr>tname = [], wdf = 2\<rparr>)]\<rparr> 0
     \<lparr>is_writable = True, mydb = 7\<rparr> = (Inl OmInvalidArgumentError, \<lparr>is_writable = True, mydb = 7\<rparr>)
   \<and> add_document (\<lambda>d t (db::nat). Inr (db + 1, db + 1))
     \<lparr>terms = [(''a'', \<lparr>tname = ''a'', wdf = 1\<rparr>)]\<rparr> 0
     \<lparr>is_writable = True, mydb = 7\<rparr> = (Inr 8, \<lparr>is_writable = True, mydb = 8\<rparr>)"
  using C9_add_document_checks_terms [where
          document = "\<lparr>terms = [(''a'', \<lparr>tname = ''a'', wdf = 1\<rparr>), (''b'', \<lparr>tname = [], wdf = 2\<rparr>)]\<rparr>"
          and db_add = "\<lambda>d t (db::nat). Inr (db + 1, db + 1)" and timeout = 0
          and this = "\<lparr>is_writable = True, mydb = 7\<rparr>"]
        C9_add_document_checks_terms [where
          document = "\<lparr>terms = [(''a'', \<lparr>tname = ''a'', wdf = 1\<rparr>)]\<rparr>"
          and db_add = "\<lambda>d t (db::nat). Inr (db + 1, db + 1)" and timeout = 0
          and this = "\<lparr>is_writable = True, mydb = 7\<rparr>"]
  by simp

subsection \<open>Registry\<close>

text \<open>
  Claim C7, as stated, at the empty registry and an object with the empty name: the error
  raised is the invalid-operation error, which is not the invalid-argument error.
\<close>

theorem C7_empty_name_error_kind_counterexample:
  "fst (register_object \<lparr>entries = Map.empty, deleted = []\<rparr> \<lparr>name = [], clone = 5\<rparr>)
     = Some InvalidOperationError
   \<and> fst (register_object \<lparr>entries = Map.empty, deleted = []\<rparr> \<lparr>name = [], clone = 5\<rparr>)
     \<noteq> Some InvalidArgumentError
   \<and> fst (register_object_rc \<lparr>rc_entries = Map.empty, refs = (\<lambda>_. 0)\<rparr> 5 [])
     \<noteq> Some InvalidArgumentError"
  by (simp add: register_object_def register_object_rc_def take_ref_def release_ref_def)

lemma take_release_ref: "release_ref p (take_ref p reg) = reg"
  by (simp add: take_ref_def release_ref_def)

lemma register_object_empty_name:
  "name obj = [] \<Longrightarrow> register_object reg obj = (Some InvalidOperationError, reg)"
  by (simp add: register_object_def)

lemma register_object_replace:
  assumes "name obj \<noteq> []" and "entries reg (name obj) = Some old" and "clone obj \<noteq> NULL"
  shows "register_object reg obj =
           (None, \<lparr>entries = (entries reg)(name obj \<mapsto> clone obj),
                   deleted = (if old = NULL then deleted reg else deleted reg @ [old])\<rparr>)"
  using assms by (simp add: register_object_def delete_ptr_def Let_def)

lemma register_object_rc_replace:
  assumes "nm \<noteq> []" and "rc_entries reg nm = Some old" and "old \<noteq> NULL" and "old \<noteq> objp"
    and "objp \<noteq> NULL"
  shows "register_object_rc reg objp nm =
           (None, \<lparr>rc_entries = (rc_entries reg)(nm \<mapsto> objp),
                   refs = (refs reg)(objp := refs reg objp + 1, old := refs reg old - 1)\<rparr>)"
  using assms
  by (simp add: register_object_rc_def take_ref_def release_ref_def Let_def fun_upd_twist)

text \<open>
  Claim C7, amended. In every category, registering an object whose \<open>name()\<close> is the empty
  string raises the invalid-operation error and leaves the registry (the map of that
  category, and what has been deleted or referenced) unchanged. Registering an object
  under a name that has an entry releases the prior entry and replaces it: with the raw
  pointer categories the prior pointer is deleted and the entry holds the fresh clone
  (when \<open>clone()\<close> returns \<open>NULL\<close> the prior pointer is deleted all the same, the entry is
  left \<open>NULL\<close> and the invalid-operation error is raised); with the reference-counted
  category the entry holds the new object, with one more reference, and the prior object
  has one reference less.
\<close>

theorem C7_register_object:
  "(name obj = [] \<longrightarrow> register_object reg obj = (Some InvalidOperationError, reg))
   \<and> (register_object_rc rreg objp [] = (Some InvalidOperationError, rreg))
   \<and> (name obj \<noteq> [] \<and> entries reg (name obj) = Some old \<and> clone obj \<noteq> NULL \<longrightarrow>
        register_object reg obj =
          (None, \<lparr>entries = (entries reg)(name obj \<mapsto> clone obj),
                  deleted = (if old = NULL then deleted reg else deleted reg @ [old])\<rparr>))
   \<and> (name obj \<noteq> [] \<and> entries reg (name obj) = Some old \<and> clone obj = NULL \<longrightarrow>
        register_object reg obj =
          (Some InvalidOperationError,
           \<lparr>entries = (entries reg)(name obj \<mapsto> NULL),
            deleted = (if old = NULL then deleted reg else deleted reg @ [old])\<rparr>))
   \<and> (nm \<noteq> [] \<and> rc_entries rreg nm = Some rold \<and> rold \<noteq> NULL \<and> rold \<noteq> objp
        \<and> objp \<noteq> NULL \<longrightarrow>
        register_object_rc rreg objp nm =
          (None, \<lparr>rc_entries = (rc_entries rreg)(nm \<mapsto> objp),
                  refs = (refs rreg)(objp := refs rreg objp + 1, rold := refs rreg rold - 1)\<rparr>))"
proof (intro conjI impI)
  show "register_object_rc rreg objp [] = (Some InvalidOperationError, rreg)"
    by (simp add: register_object_rc_def take_release_ref)
next
  assume "name obj \<noteq> [] \<and> entries reg (name obj) = Some old \<and> clone obj = NULL"
  then show "register_object reg obj =
          (Some InvalidOperationError,
           \<lparr>entries = (entries reg)(name obj \<mapsto> NULL),
            deleted = (if old = NULL then deleted reg else deleted reg @ [old])\<rparr>)"
    by (simp add: register_object_def delete_ptr_def Let_def)
qed (simp_all add: register_object_empty_name register_object_replace register_object_rc_replace)

theorem C7_register_object_witness:
  "register_object \<lparr>entries = [''bm25'' \<mapsto> 3], deleted = []\<rparr> \<lparr>name = ''bm25'', clone = 4\<rparr>
     = (None, \<lparr>entries = [''bm25'' \<mapsto> 4], deleted = [3]\<rparr>)
   \<and> register_object \<lparr>entries = [''bm25'' \<mapsto> 3], deleted = []\<rparr> \<lparr>name = [], clone = 4\<rparr>
     = (Some InvalidOperationError, \<lparr>entries = [''bm25'' \<mapsto> 3], deleted = []\<rparr>)
   \<and> register_object \<lparr>entries = [''bm25'' \<mapsto> 3], deleted = []\<rparr> \<lparr>name = ''bm25'', clone = NULL\<rparr>
     = (Some InvalidOperationError, \<lparr>entries = [''bm25'' \<mapsto> NULL], deleted = [3]\<rparr>)
   \<and> register_object_rc \<lparr>rc_entries = [''k'' \<mapsto> 3], refs = (\<lambda>_. 1)\<rparr> 4 ''k''
     = (None, \<lparr>rc_entries = [''k'' \<mapsto> 4], refs = (\<lambda>_. 1)(4 := 2, 3 := 0)\<rparr>)"
  using C7_register_object [where reg = "\<lparr>entries = [''bm25'' \<mapsto> 3], deleted = []\<rparr>"
          and obj = "\<lparr>name = ''bm25'', clone = 4\<rparr>" and old = 3
          and rreg = "\<lparr>rc_entries = [''k'' \<mapsto> 3], refs = (\<lambda>_. 1)\<rparr>" and objp = 4
          and nm = "''k''" and rold = 3]
        C7_register_object [where reg = "\<lparr>entries = [''bm25'' \<mapsto> 3], deleted = []\<rparr>"
          and obj = "\<lparr>name = [], clone = 4\<rparr>" and old = 3
          and rreg = "\<lparr>rc_entries = [''k'' \<mapsto> 3], refs = (\<lambda>_. 1)\<rparr>" and objp = 4
          and nm = "''k''" and rold = 3]
        C7_register_object [where reg = "\<lparr>entries = [''bm25'' \<mapsto> 3], deleted = []\<rparr>"
          and obj = "\<lparr>name = ''bm25'', clone = NULL\<rparr>" and old = 3
          and rreg = "\<lparr>rc_entries = [''k'' \<mapsto> 3], refs = (\<lambda>_. 1)\<rparr>" and objp = 4
          and nm = "''k''" and rold = 3]
  by (simp add: numeral_2_eq_2)

subsection \<open>PL2+ weighting scheme\<close>

lemma init_non_discriminative:
  assumes "factor0 \<noteq> 0"
    and "get_wdf_upper_bound st = 0
         \<or> real (get_collection_freq st) / real (get_collection_size st) > 1"
  shows "init st factor0 w =
           w\<lparr>factor := factor0 * real (get_wqf st),
             mean := real (get_collection_freq st) / real (get_collection_size st),
             upper_bound := 0\<rparr>"
  using assms by (auto simp: init_def Let_def)

text \<open>
  Claim C3. For a PL2PlusWeight initialised with any factor > 0, if the term's wdf upper
  bound is 0 or its mean occurrence rate collfreq/collection_size exceeds 1, then
  \<open>get_maxpart\<close> returns 0 and \<open>get_sumpart\<close> returns 0 for every (wdf, doclen) input.
  An input is the wdf and length of a posting of the term, so its wdf is at most the
  term's wdf upper bound (the invariant of the data model); when the mean rate exceeds 1
  the result is 0 for every wdf whatsoever.
\<close>

theorem C3_non_discriminative_zero:
  assumes "factor0 > 0"
    and "get_wdf_upper_bound st = 0
         \<or> real (get_collection_freq st) / real (get_collection_size st) > 1"
  shows "get_maxpart (init st factor0 w) = 0
         \<and> (\<forall>wdf0 len. wdf0 \<le> get_wdf_upper_bound st \<longrightarrow>
               get_sumpart (init st factor0 w) wdf0 len = 0)
         \<and> (real (get_collection_freq st) / real (get_collection_size st) > 1 \<longrightarrow>
               (\<forall>wdf0 len. get_sumpart (init st factor0 w) wdf0 len = 0))"
proof -
  have i: "init st factor0 w =
           w\<lparr>factor := factor0 * real (get_wqf st),
             mean := real (get_collection_freq st) / real (get_collection_size st),
             upper_bound := 0\<rparr>"
    using assms by (intro init_non_discriminative) auto
  have mx: "get_maxpart (init st factor0 w) = 0"
    by (simp add: i get_maxpart_def)
  have all: "get_sumpart (init st factor0 w) wdf0 len = 0"
    if "real (get_collection_freq st) / real (get_collection_size st) > 1" for wdf0 len
    using that by (simp add: i get_sumpart_def)
  have bounded: "get_sumpart (init st factor0 w) wdf0 len = 0"
    if b: "wdf0 \<le> get_wdf_upper_bound st" for wdf0 len
  proof (cases "real (get_collection_freq st) / real (get_collection_size st) > 1")
    case True
    then show ?thesis by (rule all)
  next
    case False
    with assms(2) b have "wdf0 = 0" by simp
    then show ?thesis by (simp add: get_sumpart_def)
  qed
  from mx all bounded show ?thesis by blast
qed

theorem C3_non_discriminative_zero_witness:
  "get_maxpart (init \<lparr>get_wqf = 1, get_wdf_upper_bound = 4, get_collection_freq = 30,
               get_collection_size = 10, get_average_length = 5, get_doclength_upper_bound = 9,
               get_doclength_lower_bound = 2\<rparr> 1
          \<lparr>stats_needed = [], factor = 0, param_c = 1, param_delta = 0.8, upper_bound = 7,
            P1 = 2, P2 = 0, cl = 1, mean = 0, dw = 0\<rparr>) = 0
   \<and> get_sumpart (init \<lparr>get_wqf = 1, get_wdf_upper_bound = 4, get_collection_freq = 30,
               get_collection_size = 10, get_average_length = 5, get_doclength_upper_bound = 9,
               get_doclength_lower_bound = 2\<rparr> 1
          \<lparr>stats_needed = [], factor = 0, param_c = 1, param_delta = 0.8, upper_bound = 7,
            P1 = 2, P2 = 0, cl = 1, mean = 0, dw = 0\<rparr>) 3 6 = 0
   \<and> get_maxpart (init \<lparr>get_wqf = 1, get_wdf_upper_bound = 0, get_collection_freq = 0,
               get_collection_size = 10, get_average_length = 5, get_doclength_upper_bound = 9,
               get_doclength_lower_bound = 2\<rparr> 1
          \<lparr>stats_needed = [], factor = 0, param_c = 1, param_delta = 0.8, upper_bound = 7,
            P1 = 2, P2 = 0, cl = 1, mean = 0, dw = 0\<rparr>) = 0
   \<and> get_sumpart (init \<lparr>get_wqf = 1, get_wdf_upper_bound = 0, get_collection_freq = 0,
               get_collection_size = 10, get_average_length = 5, get_doclength_upper_bound = 9,
               get_doclength_lower_bound = 2\<rparr> 1
          \<lparr>stats_needed = [], factor = 0, param_c = 1, param_delta = 0.8, upper_bound = 7,
            P1 = 2, P2 = 0, cl = 1, mean = 0, dw = 0\<rparr>) 0 6 = 0"
proof -
  let ?st1 = "\<lparr>get_wqf = 1, get_wdf_upper_bound = 4, get_collection_freq = 30,
               get_collection_size = 10, get_average_length = 5, get_doclength_upper_bound = 9,
               get_doclength_lower_bound = 2\<rparr>"
  let ?st2 = "\<lparr>get_wqf = 1, get_wdf_upper_bound = 0, get_collection_freq = 0,
               get_collection_size = 10, get_average_length = 5, get_doclength_upper_bound = 9,
               get_doclength_lower_bound = 2\<rparr>"
  let ?w = "\<lparr>stats_needed = [], factor = 0, param_c = 1, param_delta = 0.8,
               upper_bound = 7, P1 = 2, P2 = 0, cl = 1, mean = 0, dw = 0\<rparr>"
  have f: "(1::real) > 0" by simp
  have h1: "get_wdf_upper_bound ?st1 = 0
            \<or> real (get_collection_freq ?st1) / real (get_collection_size ?st1) > 1"
    by simp
  have h2: "get_wdf_upper_bound ?st2 = 0
            \<or> real (get_collection_freq ?st2) / real (get_collection_size ?st2) > 1"
    by simp
  show ?thesis
    using C3_non_discriminative_zero [OF f h1, of ?w]
          C3_non_discriminative_zero [OF f h2, of ?w]
    by simp
qed

lemma PL2PlusWeight_new_params:
  assumes "c > 0" and "delta > 0"
  shows "\<exists>w. PL2PlusWeight_new raw c delta = Inr w \<and> param_c w = c \<and> param_delta w = delta"
  using assms by (simp add: PL2PlusWeight_new_def need_stat_def Let_def)

text \<open>
  Claim C5. For every \<open>c > 0\<close> and \<open>delta > 0\<close>, \<open>unserialise\<close> applied to the output of
  \<open>serialise\<close> of the scheme with parameters \<open>c\<close> and \<open>delta\<close> yields a scheme whose two
  parameters are \<open>c\<close> and \<open>delta\<close>. The encoding of one double is not among the sources;
  what is asked of it is that \<open>unserialise_double\<close> reads back, from the front of its input,
  what \<open>serialise_double\<close> wrote for these two numbers.
\<close>

theorem C5_serialise_round_trip:
  assumes "c > 0" and "delta > 0"
    and "\<And>x rest. x \<in> {c, delta} \<Longrightarrow> ud (sd x @ rest) = Inr (x, rest)"
  shows "\<exists>w w'. PL2PlusWeight_new raw0 c delta = Inr w
              \<and> unserialise ud raw (serialise sd w) = Inr w'
              \<and> param_c w' = c \<and> param_delta w' = delta"
proof -
  from PL2PlusWeight_new_params [OF assms(1,2), of raw0] obtain w
    where w: "PL2PlusWeight_new raw0 c delta = Inr w" "param_c w = c" "param_delta w = delta"
    by blast
  have 1: "ud (sd c @ sd delta) = Inr (c, sd delta)"
    using assms(3) [of c "sd delta"] by simp
  have 2: "ud (sd delta) = Inr (delta, [])"
    using assms(3) [of delta "[]"] by simp
  from PL2PlusWeight_new_params [OF assms(1,2), of raw] obtain w'
    where w': "PL2PlusWeight_new raw c delta = Inr w'" "param_c w' = c" "param_delta w' = delta"
    by blast
  have "unserialise ud raw (serialise sd w) = Inr w'"
    by (simp add: unserialise_def serialise_def w 1 2 w')
  with w w' show ?thesis by blast
qed

theorem C5_serialise_round_trip_witness:
  "\<exists>w w'. PL2PlusWeight_new
             \<lparr>stats_needed = [], factor = 0, param_c = 0, param_delta = 0, upper_bound = 0,
               P1 = 0, P2 = 0, cl = 0, mean = 0, dw = 0\<rparr> 1 (4 / 5) = Inr w
     \<and> unserialise
         (\<lambda>s. case s of [] \<Rightarrow> Inl SerialisationError
               | ch # r \<Rightarrow> if ch = CHR ''a'' then Inr (1, r) else Inr (4 / 5, r))
         \<lparr>stats_needed = [], factor = 0, param_c = 0, param_delta = 0, upper_bound = 0,
           P1 = 0, P2 = 0, cl = 0, mean = 0, dw = 0\<rparr>
         (serialise (\<lambda>x. if x = 1 then ''a'' else ''b'') w) = Inr w'
     \<and> param_c w' = 1 \<and> param_delta w' = 4 / 5"
proof -
  have c: "(1::real) > 0" and d: "(4 / 5 :: real) > 0" by simp_all
  have r: "(\<lambda>s. case s of [] \<Rightarrow> Inl SerialisationError
               | ch # r \<Rightarrow> if ch = CHR ''a'' then Inr (1, r) else Inr (4 / 5, r))
             ((\<lambda>x. if x = 1 then ''a'' else ''b'') x @ rest) = Inr (x, rest)"
    if "x \<in> {1, 4 / 5 :: real}" for x rest
    using that by auto
  show ?thesis
    by (rule C5_serialise_round_trip [OF c d r])
qed

subsection \<open>N-way AND postlist\<close>

lemma sorted_dropWhile_filter:
  "sorted_wrt (<) xs \<Longrightarrow> dropWhile (\<lambda>x. x < d) xs = filter (\<lambda>x. (d::nat) \<le> x) xs"
proof (induction xs)
  case Nil then show ?case by simp
next
  case (Cons a xs)
  show ?case
  proof (cases "a < d")
    case True with Cons show ?thesis by simp
  next
    case False
    with Cons.prems have "\<forall>x \<in> set xs. d \<le> x" by auto
    then have "filter (\<lambda>x. d \<le> x) xs = xs" by (simp add: filter_id_conv)
    with False show ?thesis by simp
  qed
qed

lemma wf_leaf_filter:
  "wf_leaf p \<Longrightarrow> wf_leaf (p\<lparr>started := b, todo := filter Q (todo p)\<rparr>)"
  by (simp add: wf_leaf_def sorted_wrt_filter)

lemma keeps_skip_to:
  assumes "wf_leaf p"
  shows "keeps d p (leaf_skip_to d w p)"
proof -
  have "todo (leaf_skip_to d w p) = filter (\<lambda>x. d \<le> x) (todo p)"
    using assms by (simp add: leaf_skip_to_def wf_leaf_def sorted_dropWhile_filter)
  moreover have "wf_leaf (leaf_skip_to d w p)"
    using assms by (simp add: leaf_skip_to_def wf_leaf_def sorted_dropWhile_filter sorted_wrt_filter)
  ultimately show ?thesis by (auto simp: keeps_def)
qed

lemma leaf_check_cases:
  assumes "wf_leaf p" and "leaf_check d w p = (p', v)"
  shows "keeps d p p'"
    and "\<not> v \<Longrightarrow> d \<notin> set (todo p)"
    and "v \<Longrightarrow> started p' \<and> todo p' = filter (\<lambda>x. d \<le> x) (todo p)"
proof -
  let ?f = "filter (\<lambda>x. d \<le> x) (todo p)"
  have dw: "dropWhile (\<lambda>x. x < d) (todo p) = ?f"
    using assms(1) by (simp add: wf_leaf_def sorted_dropWhile_filter)
  have sf: "sorted_wrt (<) ?f"
    using assms(1) by (simp add: wf_leaf_def sorted_wrt_filter)
  have kp: "keeps d p p"
    using assms(1) by (simp add: keeps_def)
  have all: "keeps d p p' \<and> (\<not> v \<longrightarrow> d \<notin> set (todo p))
             \<and> (v \<longrightarrow> started p' \<and> todo p' = ?f)"
  proof (cases "lazy_check p")
    case False
    with assms(2) have "p' = leaf_skip_to d w p" "v" by (simp_all add: leaf_check_def)
    then show ?thesis
      using keeps_skip_to [OF assms(1), of d w] dw by (simp add: leaf_skip_to_def)
  next
    case True
    show ?thesis
    proof (cases ?f)
      case Nil
      with True assms(2) dw have "p' = p" "\<not> v" by (simp_all add: leaf_check_def)
      moreover from Nil have "d \<notin> set (todo p)"
        by (metis (mono_tags, lifting) filter_empty_conv order_refl)
      ultimately show ?thesis using kp by simp
    next
      case (Cons y ys)
      show ?thesis
      proof (cases "y = d")
        case True
        with \<open>lazy_check p\<close> assms(2) dw Cons
        have p': "p' = p\<lparr>started := True, todo := ?f\<rparr>" and "v"
          by (simp_all add: leaf_check_def)
        have "wf_leaf p'" unfolding p' by (rule wf_leaf_filter [OF assms(1)])
        then have "keeps d p p'" by (auto simp: keeps_def p')
        with \<open>v\<close> show ?thesis by (simp add: p')
      next
        case False
        with \<open>lazy_check p\<close> assms(2) dw Cons have "p' = p" "\<not> v"
          by (simp_all add: leaf_check_def)
        moreover have "d \<notin> set (todo p)"
        proof
          assume "d \<in> set (todo p)"
          then have "d \<in> set ?f" by simp
          with Cons False have "d \<in> set ys" by simp
          with sf Cons have "y < d" by simp
          moreover have "y \<in> set ?f" using Cons by simp
          then have "d \<le> y" by simp
          ultimately show False by simp
        qed
        ultimately show ?thesis using kp by simp
      qed
    qed
  qed
  from all show "keeps d p p'" by simp
  from all show "\<not> v \<Longrightarrow> d \<notin> set (todo p)" by simp
  from all show "v \<Longrightarrow> started p' \<and> todo p' = filter (\<lambda>x. d \<le> x) (todo p)" by simp
qed

lemma leaf_valid_at_end:
  assumes "started p'" and "todo p' = filter (\<lambda>x. d \<le> x) (todo p)" and "leaf_at_end p'"
  shows "\<forall>x. d \<le> x \<longrightarrow> x \<notin> set (todo p)"
proof -
  from assms have "filter (\<lambda>x. d \<le> x) (todo p) = []" by (simp add: leaf_at_end_def)
  then show ?thesis by (auto simp: filter_empty_conv)
qed

lemma leaf_valid_docid:
  assumes "wf_leaf p" and "started p'" and "todo p' = filter (\<lambda>x. d \<le> x) (todo p)"
    and "\<not> leaf_at_end p'"
  shows "leaf_get_docid p' \<in> set (todo p)" and "d \<le> leaf_get_docid p'"
    and "\<forall>x. d \<le> x \<and> x < leaf_get_docid p' \<longrightarrow> x \<notin> set (todo p)"
proof -
  let ?f = "filter (\<lambda>x. d \<le> x) (todo p)"
  from assms(2-4) obtain y ys where f: "?f = y # ys"
    by (cases ?f) (auto simp: leaf_at_end_def)
  with assms(2,3) have y: "leaf_get_docid p' = y" by (simp add: leaf_get_docid_def)
  have "y \<in> set ?f" using f by simp
  then show "leaf_get_docid p' \<in> set (todo p)" and "d \<le> leaf_get_docid p'"
    by (simp_all add: y)
  have sf: "sorted_wrt (<) (y # ys)"
    using assms(1) f [symmetric] by (simp add: wf_leaf_def sorted_wrt_filter)
  show "\<forall>x. d \<le> x \<and> x < leaf_get_docid p' \<longrightarrow> x \<notin> set (todo p)"
  proof (intro allI impI notI)
    fix x assume "d \<le> x \<and> x < leaf_get_docid p'" and "x \<in> set (todo p)"
    then have "x \<in> set (y # ys)" "x < y" using f [symmetric] y by simp_all
    with sf show False by auto
  qed
qed

lemma check_kids_spec:
  assumes "\<forall>p \<in> set ps. wf_leaf p" and "check_kids d w ps = (r, ps')"
  shows "list_all2 (keeps d) ps ps' \<and> check_post d ps r ps'"
  using assms
proof (induction ps arbitrary: r ps')
  case Nil
  then show ?case by (simp add: check_post_def in_all_def)
next
  case (Cons p ps)
  obtain p' v where c: "leaf_check d w p = (p', v)" by (cases "leaf_check d w p")
  from Cons.prems(1) have wp: "wf_leaf p" and wps: "\<forall>p \<in> set ps. wf_leaf p" by simp_all
  note lc = leaf_check_cases [OF wp c]
  have kps: "list_all2 (keeps d) ps ps"
    using wps by (simp add: list_all2_same keeps_def)
  show ?case
  proof (cases v)
    case False
    with Cons.prems(2) c have "r = Kid_invalid" "ps' = p' # ps" by simp_all
    moreover from lc(2) False have "\<not> in_all (p # ps) d" by (simp add: in_all_def)
    ultimately show ?thesis using lc(1) kps by (simp add: check_post_def)
  next
    case True
    with lc(3) have st: "started p'" and td: "todo p' = filter (\<lambda>x. d \<le> x) (todo p)"
      by simp_all
    show ?thesis
    proof (cases "leaf_at_end p'")
      case e: True
      with Cons.prems(2) c \<open>v\<close> have "r = Kid_at_end" "ps' = p' # ps" by simp_all
      moreover from leaf_valid_at_end [OF st td e]
      have "\<exists>q \<in> set (p # ps). \<forall>x. d \<le> x \<longrightarrow> x \<notin> set (todo q)" by simp
      ultimately show ?thesis using lc(1) kps by (simp add: check_post_def)
    next
      case ne: False
      note vd = leaf_valid_docid [OF wp st td ne]
      show ?thesis
      proof (cases "leaf_get_docid p' = d")
        case False
        with Cons.prems(2) c \<open>v\<close> ne
        have "r = Kid_differs (leaf_get_docid p')" "ps' = p' # ps" by (simp_all add: Let_def)
        moreover from vd(2) False have "d < leaf_get_docid p'" by simp
        moreover from vd(3)
        have "\<exists>q \<in> set (p # ps). \<forall>x. d \<le> x \<and> x < leaf_get_docid p' \<longrightarrow> x \<notin> set (todo q)"
          by simp
        ultimately show ?thesis using lc(1) kps by (simp add: check_post_def)
      next
        case eq: True
        obtain r2 qs where k: "check_kids d w ps = (r2, qs)" by (cases "check_kids d w ps")
        with Cons.prems(2) c \<open>v\<close> ne eq have r: "r = r2" "ps' = p' # qs"
          by (simp_all add: Let_def)
        from Cons.IH [OF wps k] have ih: "list_all2 (keeps d) ps qs" "check_post d ps r2 qs"
          by simp_all
        from vd(1) eq have dp: "d \<in> set (todo p)" by simp
        have "check_post d (p # ps) r2 (p' # qs)"
          using ih(2) dp st eq
          by (cases r2) (auto simp: check_post_def in_all_def)
        with ih(1) lc(1) r show ?thesis by simp
      qed
    qed
  qed
qed

lemma keeps_in_all:
  "list_all2 (keeps d) ps ps' \<Longrightarrow> d \<le> x \<Longrightarrow> in_all ps' x = in_all ps x"
  by (induction ps ps' rule: list_all2_induct) (auto simp: in_all_def keeps_def)

lemma keeps_wf: "list_all2 (keeps d) ps ps' \<Longrightarrow> \<forall>p' \<in> set ps'. wf_leaf p'"
  by (induction ps ps' rule: list_all2_induct) (auto simp: keeps_def)

lemma fnm_post_transfer:
  assumes post: "fnm_post s2 s'"
    and len: "length (plist_rest s2) = length (plist_rest s)"
    and lo: "\<forall>x \<in> set (todo (plist0 s2)). d0 \<le> x"
    and same: "\<forall>x. d0 \<le> x \<longrightarrow> in_all (plist_rest s2) x = in_all (plist_rest s) x"
    and F: "filter (in_all (plist_rest s)) (todo (plist0 s))
              = filter (in_all (plist_rest s)) (todo (plist0 s2))"
    and T: "\<forall>d \<in> set (todo (plist0 s2)).
              filter (\<lambda>x. d \<le> x) (todo (plist0 s2)) = filter (\<lambda>x. d \<le> x) (todo (plist0 s))"
  shows "fnm_post s s'"
proof -
  let ?F2 = "filter (in_all (plist_rest s2)) (todo (plist0 s2))"
  have F2: "?F2 = filter (in_all (plist_rest s)) (todo (plist0 s))"
    unfolding F by (rule filter_cong) (use lo same in auto)
  show ?thesis
  proof (cases ?F2)
    case Nil
    with post F2 len show ?thesis by (simp add: fnm_post_def)
  next
    case (Cons d F')
    then have "d \<in> set ?F2" by simp
    then have dT: "d \<in> set (todo (plist0 s2))" by simp
    with lo have "d0 \<le> d" by simp
    with same have "\<forall>x. d \<le> x \<longrightarrow> in_all (plist_rest s2) x = in_all (plist_rest s) x"
      by simp
    moreover from T dT
    have "filter (\<lambda>x. d \<le> x) (todo (plist0 s2)) = filter (\<lambda>x. d \<le> x) (todo (plist0 s))"
      by simp
    ultimately show ?thesis
      using post Cons F2 len by (simp add: fnm_post_def)
  qed
qed

lemma find_next_match_post:
  assumes "wf_leaf (plist0 s)" and "started (plist0 s)" and "\<forall>p \<in> set (plist_rest s). wf_leaf p"
  shows "fnm_post s (find_next_match w s)"
  using assms
proof (induction "leaf_measure (plist0 s)" arbitrary: s rule: less_induct)
  case less
  let ?T = "todo (plist0 s)"
  let ?ks = "plist_rest s"
  let ?Q = "in_all ?ks"
  note wf0 = less.prems(1) and st0 = less.prems(2) and wfk = less.prems(3)
  show ?case
  proof (cases "leaf_at_end (plist0 s)")
    case True
    then have "?T = []" by (simp add: leaf_at_end_def)
    moreover from True have "find_next_match w s = s\<lparr>did := 0\<rparr>"
      by (simp add: find_next_match.simps)
    ultimately show ?thesis using less.prems by (simp add: fnm_post_def)
  next
    case False
    with st0 obtain d0 T' where T: "?T = d0 # T'"
      by (cases ?T) (auto simp: leaf_at_end_def)
    with st0 have gd: "leaf_get_docid (plist0 s) = d0" by (simp add: leaf_get_docid_def)
    from wf0 T have gt: "\<forall>x \<in> set T'. d0 < x" and sT': "sorted_wrt (<) T'"
      and z: "0 \<notin> set T'"
      by (auto simp: wf_leaf_def)
    have geT: "\<forall>x \<in> set ?T. d0 \<le> x" using T gt by auto
    obtain r ps where ck: "check_kids d0 w ?ks = (r, ps)" by (cases "check_kids d0 w ?ks")
    from check_kids_spec [OF wfk ck]
    have k: "list_all2 (keeps d0) ?ks ps" and cp: "check_post d0 ?ks r ps" by simp_all
    have len: "length ps = length ?ks" using k by (simp add: list_all2_lengthD)
    note wps = keeps_wf [OF k]
    note same = keeps_in_all [OF k]
    show ?thesis
    proof (cases r)
      case All_agree
      with False gd ck have res: "find_next_match w s = s\<lparr>did := d0, plist_rest := ps\<rparr>"
        by (simp add: find_next_match.simps)
      from cp All_agree have Q0: "?Q d0" and pos: "\<forall>p' \<in> set ps. started p' \<and> leaf_get_docid p' = d0"
        by (simp_all add: check_post_def)
      have "filter (\<lambda>x. d0 \<le> x) ?T = ?T"
        using geT by (simp add: filter_id_conv)
      with Q0 T wf0 st0 wps len pos same show ?thesis
        by (simp add: res fnm_post_def)
    next
      case Kid_at_end
      with False gd ck have res: "find_next_match w s = s\<lparr>did := 0, plist_rest := ps\<rparr>"
        by (simp add: find_next_match.simps)
      from cp Kid_at_end obtain p where "p \<in> set ?ks" "\<forall>x. d0 \<le> x \<longrightarrow> x \<notin> set (todo p)"
        by (auto simp: check_post_def)
      then have "\<forall>x \<in> set ?T. \<not> ?Q x" using geT by (auto simp: in_all_def)
      then have "filter ?Q ?T = []" by (simp add: filter_empty_conv)
      with wf0 st0 wps len show ?thesis
        by (simp add: res fnm_post_def)
    next
      case Kid_invalid
      let ?s2 = "next_helper_0 w (s\<lparr>did := d0, plist_rest := ps\<rparr>)"
      from Kid_invalid False gd ck have res: "find_next_match w s = find_next_match w ?s2"
        by (subst find_next_match.simps) simp
      have p2: "plist0 ?s2 = (plist0 s)\<lparr>todo := T'\<rparr>" and r2: "plist_rest ?s2 = ps"
        using st0 T by (simp_all add: next_helper_0_def leaf_next_def)
      have m: "leaf_measure (plist0 ?s2) < leaf_measure (plist0 s)"
        using st0 T by (simp add: p2 leaf_measure_def)
      have wf2: "wf_leaf (plist0 ?s2)" using sT' z by (simp add: p2 wf_leaf_def)
      have st2: "started (plist0 ?s2)" using st0 by (simp add: p2)
      have ih: "fnm_post ?s2 (find_next_match w ?s2)"
        by (rule less.hyps [OF m wf2 st2]) (use wps r2 in simp)
      from cp Kid_invalid have "\<not> ?Q d0" by (simp add: check_post_def)
      then have F: "filter ?Q ?T = filter ?Q (todo (plist0 ?s2))" by (simp add: T p2)
      have Tt: "\<forall>d \<in> set (todo (plist0 ?s2)).
              filter (\<lambda>x. d \<le> x) (todo (plist0 ?s2)) = filter (\<lambda>x. d \<le> x) ?T"
        using gt by (auto simp: p2 T)
      have lo: "\<forall>x \<in> set (todo (plist0 ?s2)). d0 \<le> x" using gt by (auto simp: p2)
      have "fnm_post s (find_next_match w ?s2)"
        by (rule fnm_post_transfer [OF ih _ lo _ F Tt]) (use len r2 same in simp_all)
      then show ?thesis by (simp add: res)
    next
      case (Kid_differs nd)
      let ?s3 = "skip_to_helper_0 nd w (s\<lparr>did := d0, plist_rest := ps\<rparr>)"
      let ?T3 = "filter (\<lambda>x. nd \<le> x) ?T"
      from Kid_differs False gd ck have res: "find_next_match w s = find_next_match w ?s3"
        by (subst find_next_match.simps) simp
      from cp Kid_differs obtain p where lt: "d0 < nd" and p: "p \<in> set ?ks"
        and gap: "\<forall>x. d0 \<le> x \<and> x < nd \<longrightarrow> x \<notin> set (todo p)"
        by (auto simp: check_post_def)
      have p3: "plist0 ?s3 = leaf_skip_to nd w (plist0 s)" and r3: "plist_rest ?s3 = ps"
        by (simp_all add: skip_to_helper_0_def)
      have t3: "todo (plist0 ?s3) = ?T3"
        using wf0 by (simp add: p3 leaf_skip_to_def wf_leaf_def sorted_dropWhile_filter)
      have m: "leaf_measure (plist0 ?s3) < leaf_measure (plist0 s)"
        unfolding p3 by (rule leaf_measure_skip_to [OF False]) (simp add: gd lt)
      have wf3: "wf_leaf (plist0 ?s3)"
        using keeps_skip_to [OF wf0, of nd w] by (simp add: p3 keeps_def)
      have st3: "started (plist0 ?s3)" by (simp add: p3 leaf_skip_to_def)
      have ih: "fnm_post ?s3 (find_next_match w ?s3)"
        by (rule less.hyps [OF m wf3 st3]) (use wps r3 in simp)
      have "\<forall>x \<in> set ?T. x < nd \<longrightarrow> \<not> ?Q x"
        using geT gap p by (auto simp: in_all_def)
      then have F: "filter ?Q ?T = filter ?Q (todo (plist0 ?s3))"
        unfolding t3 filter_filter by (intro filter_cong) auto
      have Tt: "\<forall>d \<in> set (todo (plist0 ?s3)).
              filter (\<lambda>x. d \<le> x) (todo (plist0 ?s3)) = filter (\<lambda>x. d \<le> x) ?T"
        unfolding t3 filter_filter by (auto intro!: filter_cong)
      have lo: "\<forall>x \<in> set (todo (plist0 ?s3)). d0 \<le> x" using geT by (simp add: t3)
      have "fnm_post s (find_next_match w ?s3)"
        by (rule fnm_post_transfer [OF ih _ lo _ F Tt]) (use len r3 same in simp_all)
      then show ?thesis by (simp add: res)
    qed
  qed
qed

lemma filter_ge_Cons:
  "sorted_wrt (<) R \<Longrightarrow> d \<in> set R \<Longrightarrow>
     filter (\<lambda>x. (d::nat) \<le> x) R = d # filter (\<lambda>x. d < x) R"
proof (induction R)
  case Nil then show ?case by simp
next
  case (Cons a R)
  show ?case
  proof (cases "a = d")
    case True
    with Cons.prems have "\<forall>x \<in> set R. d < x" by simp
    then have "filter (\<lambda>x. d \<le> x) R = R" "filter (\<lambda>x. d < x) R = R"
      by (simp_all add: filter_id_conv less_imp_le)
    with True show ?thesis by simp
  next
    case False
    with Cons.prems have dR: "d \<in> set R" by simp
    with Cons.prems have ad: "a < d" by simp
    from Cons.prems have "sorted_wrt (<) R" by simp
    from Cons.IH [OF this dR] ad show ?thesis by simp
  qed
qed

lemma filter_tail:
  "sorted_wrt (<) R \<Longrightarrow> filter Q R = d # F' \<Longrightarrow> filter Q (filter (\<lambda>x. (d::nat) < x) R) = F'"
proof (induction R)
  case Nil then show ?case by simp
next
  case (Cons a R)
  show ?case
  proof (cases "Q a")
    case True
    with Cons.prems have a: "a = d" and F': "filter Q R = F'" by simp_all
    from Cons.prems(1) a have "\<forall>x \<in> set R. d < x" by simp
    then have "filter (\<lambda>x. d < x) R = R" by (simp add: filter_id_conv)
    with a F' show ?thesis by simp
  next
    case False
    with Cons.prems have f: "filter Q R = d # F'" by simp
    then have "d \<in> set (filter Q R)" by simp
    then have "d \<in> set R" by simp
    with Cons.prems(1) have "a < d" by simp
    with Cons.IH f Cons.prems(1) show ?thesis by simp
  qed
qed

lemma emit_all_spec:
  assumes "wf_leaf (plist0 s)" and "\<forall>p \<in> set (plist_rest s). wf_leaf p"
  shows "map fst (emit_all w s) = filter (in_all (plist_rest s)) (remaining (plist0 s))
         \<and> (\<forall>e \<in> set (emit_all w s). snd e = replicate (length (plist s)) (fst e))"
  using assms
proof (induction "leaf_measure (plist0 s)" arbitrary: s rule: less_induct)
  case less
  let ?R = "remaining (plist0 s)"
  let ?Q = "in_all (plist_rest s)"
  let ?s0 = "next_helper_0 w s"
  let ?s' = "MultiAndPostList_next w s"
  have p0: "plist0 ?s0 = (plist0 s)\<lparr>started := True, todo := ?R\<rparr>"
    by (simp add: next_helper_0_def leaf_next_def remaining_def)
  have r0: "plist_rest ?s0 = plist_rest s" by (simp add: next_helper_0_def)
  have sR: "sorted_wrt (<) ?R" and zR: "0 \<notin> set ?R"
    using less.prems(1)
    by (cases "todo (plist0 s)"; simp add: wf_leaf_def remaining_def)+
  have wf0: "wf_leaf (plist0 ?s0)" using sR zR by (simp add: p0 wf_leaf_def)
  have post: "fnm_post ?s0 ?s'"
    unfolding MultiAndPostList_next_def
    by (rule find_next_match_post [OF wf0]) (use less.prems(2) in \<open>simp_all add: p0 r0\<close>)
  show ?case
  proof (cases "filter ?Q ?R")
    case Nil
    with post have "did ?s' = 0" by (simp add: fnm_post_def p0 r0)
    then have "emit_all w s = []" by (subst emit_all.simps) (simp add: at_end_def Let_def)
    with Nil show ?thesis by simp
  next
    case (Cons d F')
    with post have d: "did ?s' = d"
      and t: "todo (plist0 ?s') = filter (\<lambda>x. d \<le> x) ?R"
      and pos: "\<forall>p' \<in> set (plist_rest ?s'). started p' \<and> leaf_get_docid p' = d"
      and same: "\<forall>x. d \<le> x \<longrightarrow> in_all (plist_rest ?s') x = ?Q x"
      and wf': "wf_leaf (plist0 ?s')" "\<forall>p \<in> set (plist_rest ?s'). wf_leaf p"
      and st': "started (plist0 ?s')"
      and len: "length (plist_rest ?s') = length (plist_rest s)"
      by (simp_all add: fnm_post_def p0 r0)
    from Cons have "d \<in> set (filter ?Q ?R)" by simp
    then have dR: "d \<in> set ?R" by simp
    with zR have d0: "d \<noteq> 0" by metis
    then have ne: "\<not> at_end ?s'" by (simp add: at_end_def d)
    have t': "todo (plist0 ?s') = d # filter (\<lambda>x. d < x) ?R"
      using filter_ge_Cons [OF sR dR] t by simp
    then have rem': "remaining (plist0 ?s') = filter (\<lambda>x. d < x) ?R"
      using st' by (simp add: remaining_def)
    have gd: "leaf_get_docid (plist0 ?s') = d"
      using st' t' by (simp add: leaf_get_docid_def)
    have ih: "map fst (emit_all w ?s') = filter (in_all (plist_rest ?s')) (remaining (plist0 ?s'))
         \<and> (\<forall>e \<in> set (emit_all w ?s'). snd e = replicate (length (plist ?s')) (fst e))"
      by (rule less.hyps [OF next_measure [OF ne] wf'])
    have "filter (in_all (plist_rest ?s')) (remaining (plist0 ?s'))
            = filter ?Q (filter (\<lambda>x. d < x) ?R)"
      unfolding rem' by (rule filter_cong) (use same in auto)
    also have "\<dots> = F'" by (rule filter_tail [OF sR Cons])
    finally have F': "map fst (emit_all w ?s') = F'" using ih by simp
    have e: "emit_all w s = (d, map leaf_get_docid (plist ?s')) # emit_all w ?s'"
      using ne by (subst emit_all.simps) (simp add: get_docid_def d Let_def)
    have "map leaf_get_docid (plist_rest ?s') = map (\<lambda>_. d) (plist_rest ?s')"
      by (rule map_cong) (use pos in simp_all)
    then have "map leaf_get_docid (plist ?s') = replicate (length (plist s)) d"
      using gd len by (simp add: plist_def map_replicate_const)
    moreover have "length (plist ?s') = length (plist s)" using len by (simp add: plist_def)
    ultimately show ?thesis using ih F' Cons by (simp add: e)
  qed
qed

lemma recalc_loop_eq:
  "recalc_loop ps (mw, mt) =
     (mw @ map leaf_recalc_maxweight ps, mt + sum_list (map leaf_recalc_maxweight ps))"
  by (induction ps arbitrary: mw mt) (simp_all add: Let_def)

lemma get_weight_loop_eq:
  "get_weight_loop ps dl ut wm result =
     result + sum_list (map (\<lambda>p. leaf_get_weight p dl ut wm) ps)"
  by (induction ps arbitrary: result) simp_all

lemma leaf_check_maxweight:
  "leaf_check d w p = (p', v) \<Longrightarrow> maxweight p' = maxweight p"
  by (auto simp: leaf_check_def leaf_skip_to_def split: if_splits list.splits)

lemma check_kids_maxweight:
  "check_kids d w ps = (r, ps') \<Longrightarrow> map maxweight ps' = map maxweight ps"
proof (induction ps arbitrary: r ps')
  case Nil then show ?case by simp
next
  case (Cons p ps)
  obtain p' v where c: "leaf_check d w p = (p', v)" by (cases "leaf_check d w p")
  obtain r2 qs where k: "check_kids d w ps = (r2, qs)" by (cases "check_kids d w ps")
  from Cons.IH [OF k] have ih: "map maxweight qs = map maxweight ps" .
  from leaf_check_maxweight [OF c] have m: "maxweight p' = maxweight p" .
  from Cons.prems c k have "ps' = p' # ps \<or> ps' = p' # qs"
    by (auto simp: Let_def split: if_splits)
  with ih m show ?case by auto
qed

lemma find_next_match_maxweight:
  "map maxweight (plist (find_next_match w s)) = map maxweight (plist s)"
proof (induction "leaf_measure (plist0 s)" arbitrary: s rule: less_induct)
  case less
  show ?case
  proof (cases "leaf_at_end (plist0 s)")
    case True
    then show ?thesis by (simp add: find_next_match.simps plist_def)
  next
    case False
    let ?d0 = "leaf_get_docid (plist0 s)"
    obtain r ps where ck: "check_kids ?d0 w (plist_rest s) = (r, ps)"
      by (cases "check_kids ?d0 w (plist_rest s)")
    note mk = check_kids_maxweight [OF ck]
    show ?thesis
    proof (cases r)
      case All_agree
      with False ck mk show ?thesis by (simp add: find_next_match.simps plist_def)
    next
      case Kid_at_end
      with False ck mk show ?thesis by (simp add: find_next_match.simps plist_def)
    next
      case Kid_invalid
      let ?s2 = "next_helper_0 w (s\<lparr>did := ?d0, plist_rest := ps\<rparr>)"
      from Kid_invalid False ck have res: "find_next_match w s = find_next_match w ?s2"
        by (subst find_next_match.simps) simp
      have m: "leaf_measure (plist0 ?s2) < leaf_measure (plist0 s)"
        using leaf_measure_next [OF False, of w] by (simp add: next_helper_0_def)
      have "map maxweight (plist ?s2) = map maxweight (plist s)"
        using mk by (simp add: plist_def next_helper_0_def leaf_next_def)
      with less.hyps [OF m] show ?thesis by (simp add: res)
    next
      case (Kid_differs nd)
      let ?s3 = "skip_to_helper_0 nd w (s\<lparr>did := ?d0, plist_rest := ps\<rparr>)"
      from Kid_differs False ck have res: "find_next_match w s = find_next_match w ?s3"
        by (subst find_next_match.simps) simp
      from check_kids_differs ck Kid_differs have "?d0 < nd" by simp
      then have m: "leaf_measure (plist0 ?s3) < leaf_measure (plist0 s)"
        using leaf_measure_skip_to [OF False, of nd w] by (simp add: skip_to_helper_0_def)
      have "map maxweight (plist ?s3) = map maxweight (plist s)"
        using mk by (simp add: plist_def skip_to_helper_0_def leaf_skip_to_def)
      with less.hyps [OF m] show ?thesis by (simp add: res)
    qed
  qed
qed

lemma next_maxweight:
  "map maxweight (plist (MultiAndPostList_next w s)) = map maxweight (plist s)"
  unfolding MultiAndPostList_next_def find_next_match_maxweight
  by (simp add: plist_def next_helper_0_def leaf_next_def)

lemma nexts_maxweight: "map maxweight (plist (nexts ws s)) = map maxweight (plist s)"
  by (induction ws arbitrary: s) (simp_all add: next_maxweight)

lemmas S3_eval = emit_all.simps find_next_match.simps S3_and_def S3_A_def S3_B_def
  MultiAndPostList_next_def next_helper_0_def skip_to_helper_0_def leaf_next_def
  leaf_skip_to_def leaf_check_def leaf_at_end_def leaf_get_docid_def at_end_def
  get_docid_def plist_def Let_def

text \<open>
  Claim C2. \<open>recalc_maxweight\<close> returns the sum of the children's \<open>recalc_maxweight\<close>
  results. After that call, at every docid the node emits (after any number of calls of
  \<open>next\<close>, not at its end), \<open>get_weight\<close> is the sum of the children's \<open>get_weight\<close>, and
  it is at most the returned maxweight, provided each child's \<open>get_weight\<close> is at most
  that child's own \<open>recalc_maxweight\<close> result.
\<close>

theorem C2_maxweight_bounds_weight:
  "fst (recalc_maxweight s) = sum_list (map leaf_recalc_maxweight (plist s))
   \<and> (\<forall>ws. \<not> at_end (nexts ws (snd (recalc_maxweight s)))
          \<and> list_all (\<lambda>p. leaf_get_weight p doclen unique_terms wdfdocmax
                             \<le> leaf_recalc_maxweight p)
               (plist (nexts ws (snd (recalc_maxweight s))))
        \<longrightarrow> get_weight (nexts ws (snd (recalc_maxweight s))) doclen unique_terms wdfdocmax
              = sum_list (map (\<lambda>p. leaf_get_weight p doclen unique_terms wdfdocmax)
                            (plist (nexts ws (snd (recalc_maxweight s)))))
            \<and> get_weight (nexts ws (snd (recalc_maxweight s))) doclen unique_terms wdfdocmax
              \<le> fst (recalc_maxweight s))"
proof (intro conjI allI impI)
  show r: "fst (recalc_maxweight s) = sum_list (map leaf_recalc_maxweight (plist s))"
    by (simp add: recalc_maxweight_def recalc_loop_eq)
  fix ws
  let ?s' = "nexts ws (snd (recalc_maxweight s))"
  assume a: "\<not> at_end ?s' \<and> list_all (\<lambda>p. leaf_get_weight p doclen unique_terms wdfdocmax
                             \<le> leaf_recalc_maxweight p) (plist ?s')"
  show g: "get_weight ?s' doclen unique_terms wdfdocmax
          = sum_list (map (\<lambda>p. leaf_get_weight p doclen unique_terms wdfdocmax) (plist ?s'))"
    by (simp add: get_weight_def get_weight_loop_eq)
  have "plist (snd (recalc_maxweight s)) = plist s"
    by (simp add: recalc_maxweight_def recalc_loop_eq plist_def)
  then have "map maxweight (plist ?s') = map maxweight (plist s)"
    by (simp add: nexts_maxweight)
  then have m: "map leaf_recalc_maxweight (plist ?s') = map leaf_recalc_maxweight (plist s)"
    by (simp add: leaf_recalc_maxweight_def [abs_def])
  have "sum_list (map (\<lambda>p. leaf_get_weight p doclen unique_terms wdfdocmax) (plist ?s'))
          \<le> sum_list (map leaf_recalc_maxweight (plist ?s'))"
    by (rule sum_list_mono) (use a in \<open>simp add: list_all_iff\<close>)
  then show "get_weight ?s' doclen unique_terms wdfdocmax \<le> fst (recalc_maxweight s)"
    by (simp add: g r m)
qed

theorem C2_maxweight_bounds_weight_witness:
  "fst (recalc_maxweight S3_and) = 3
   \<and> get_weight (nexts [0] (snd (recalc_maxweight S3_and))) 10 5 2 = 2
   \<and> get_weight (nexts [0] (snd (recalc_maxweight S3_and))) 10 5 2
       \<le> fst (recalc_maxweight S3_and)"
proof -
  have r: "recalc_maxweight S3_and = (3, S3_and\<lparr>max_wt := [2, 1], max_total := 3\<rparr>)"
    by (simp add: recalc_maxweight_def plist_def S3_and_def S3_A_def S3_B_def
        leaf_recalc_maxweight_def)
  have n: "MultiAndPostList_next 0 (S3_and\<lparr>max_wt := [2, 1], max_total := 3\<rparr>) =
     \<lparr>plist0 = S3_A\<lparr>started := True, todo := [3, 5, 7]\<rparr>,
      plist_rest = [S3_B\<lparr>started := True\<rparr>], did = 3, max_wt = [2, 1], max_total = 3\<rparr>"
    by (simp add: S3_eval)
  have pre: "\<not> at_end (nexts [0] (snd (recalc_maxweight S3_and)))
          \<and> list_all (\<lambda>p. leaf_get_weight p 10 5 2 \<le> leaf_recalc_maxweight p)
               (plist (nexts [0] (snd (recalc_maxweight S3_and))))"
    by (simp add: r n at_end_def plist_def leaf_get_weight_def leaf_recalc_maxweight_def
        S3_A_def S3_B_def)
  have g: "get_weight (nexts [0] (snd (recalc_maxweight S3_and))) 10 5 2 = 2"
    by (simp add: r n get_weight_def plist_def leaf_get_weight_def S3_A_def S3_B_def)
  from C2_maxweight_bounds_weight [where s = S3_and and doclen = 10 and unique_terms = 5
      and wdfdocmax = 2] pre g r
  show ?thesis by simp
qed

text \<open>
  Claim C1. For a MultiAndPostList whose children have not been advanced and whose
  posting streams are strictly increasing sequences of positive docids, calling \<open>next\<close>
  until \<open>at_end\<close> (which always comes: \<open>emit_all\<close> is a total function) emits exactly
  the docids present in every child's stream, each exactly once and in strictly increasing
  order, and at each emission every child is positioned on the emitted docid.
\<close>

theorem C1_multi_and_emits_intersection:
  assumes "\<forall>p \<in> set (plist s). sorted_wrt (<) (todo p) \<and> 0 \<notin> set (todo p) \<and> \<not> started p"
  shows "set (map fst (emit_all w s)) = (\<Inter>p \<in> set (plist s). set (todo p))
         \<and> sorted_wrt (<) (map fst (emit_all w s))
         \<and> distinct (map fst (emit_all w s))
         \<and> list_all (\<lambda>e. snd e = replicate (length (plist s)) (fst e)) (emit_all w s)"
proof -
  from assms have wf: "wf_leaf (plist0 s)" "\<forall>p \<in> set (plist_rest s). wf_leaf p"
    and ns: "\<not> started (plist0 s)"
    by (simp_all add: plist_def wf_leaf_def)
  from emit_all_spec [OF wf, of w] ns
  have m: "map fst (emit_all w s) = filter (in_all (plist_rest s)) (todo (plist0 s))"
    and p: "\<forall>e \<in> set (emit_all w s). snd e = replicate (length (plist s)) (fst e)"
    by (simp_all add: remaining_def)
  have srt: "sorted_wrt (<) (map fst (emit_all w s))"
    unfolding m using wf(1) by (simp add: wf_leaf_def sorted_wrt_filter)
  then have "distinct (map fst (emit_all w s))"
    by (simp add: strict_sorted_iff)
  moreover have "set (map fst (emit_all w s)) = (\<Inter>p \<in> set (plist s). set (todo p))"
    unfolding m by (auto simp: in_all_def plist_def)
  ultimately show ?thesis using srt p by (simp add: list_all_iff)
qed

theorem C1_multi_and_emits_intersection_witness:
  "set (map fst (emit_all 0 S3_and)) = {3, 5}
   \<and> sorted_wrt (<) (map fst (emit_all 0 S3_and))
   \<and> distinct (map fst (emit_all 0 S3_and))
   \<and> list_all (\<lambda>e. snd e = replicate 2 (fst e)) (emit_all 0 S3_and)"
proof -
  have h: "\<forall>p \<in> set (plist S3_and). sorted_wrt (<) (todo p) \<and> 0 \<notin> set (todo p) \<and> \<not> started p"
    by (simp add: plist_def S3_and_def S3_A_def S3_B_def)
  have i: "(\<Inter>p \<in> set (plist S3_and). set (todo p)) = {3, 5}"
    by (auto simp: plist_def S3_and_def S3_A_def S3_B_def)
  have l: "length (plist S3_and) = 2"
    by (simp add: plist_def S3_and_def)
  from C1_multi_and_emits_intersection [OF h, of 0] show ?thesis
    by (simp only: i l)
qed

lemma S3_emits: "emit_all 0 S3_and = [(3, [3, 3]), (5, [5, 5])]"
  by (simp add: S3_eval)

subsection \<open>Honey cursor\<close>

lemma unpack_uint_high: "\<forall>b \<in> set bs. 128 \<le> b \<Longrightarrow> unpack_uint bs = None"
  by (induction bs) (auto simp: not_less [symmetric])

lemma read_val_size_bytes_high:
  assumes "\<forall>b \<in> set (drop (pos f) (data f)). 128 \<le> b" and "length (data f) - pos f < n"
  shows "\<forall>b \<in> set (fst (read_val_size_bytes n f)). 128 \<le> b"
  using assms
proof (induction n arbitrary: f)
  case 0 then show ?case by simp
next
  case (Suc n)
  show ?case
  proof (cases "pos f < length (data f)")
    case False
    then show ?thesis by (simp add: fh_read_def)
  next
    case True
    let ?b = "data f ! pos f"
    let ?f' = "f\<lparr>pos := pos f + 1\<rparr>"
    from True have d: "drop (pos f) (data f) = ?b # drop (pos f + 1) (data f)"
      by (simp add: Cons_nth_drop_Suc)
    with Suc.prems(1) have hb: "128 \<le> ?b" and rest: "\<forall>b \<in> set (drop (pos ?f') (data ?f')). 128 \<le> b"
      by simp_all
    from hb have u: "\<not> uint ?b < 128" by (simp add: word_le_def)
    have n: "uint ?b \<noteq> - 1" using uint_ge_0 [of ?b] by linarith
    from True Suc.prems(2) have "length (data ?f') - pos ?f' < n" by simp
    from Suc.IH [OF rest this] hb True u n show ?thesis
      by (simp add: fh_read_def split: prod.splits)
  qed
qed

lemma next_from_index_cut_short:
  assumes "value_size_cut_short (data (fh c)) (pos (fh c))"
  shows "next_from_index c = Inl (Throw DatabaseError)"
proof -
  from assms have "\<forall>b \<in> set (fst (read_val_size_bytes 8 (fh c))). 128 \<le> b"
    by (intro read_val_size_bytes_high) (simp_all add: value_size_cut_short_def)
  then have "unpack_uint (fst (read_val_size_bytes 8 (fh c))) = None"
    by (rule unpack_uint_high)
  then show ?thesis
    by (cases "read_val_size_bytes 8 (fh c)") (simp add: next_from_index_def)
qed

lemma read_key_cut_short:
  assumes "value_size_cut_short (data f) (pos f + n)"
  shows "read_key reuse n f c = Inl (Throw DatabaseError)"
proof -
  from assms have le: "pos f + n \<le> length (data f)"
    by (simp add: value_size_cut_short_def)
  obtain buf f' where r: "fh_read_buf (replicate 256 0) n f = (buf, f')"
    by (cases "fh_read_buf (replicate 256 0) n f")
  then have d: "data f' = data f" and p: "pos f' = pos f + n"
    using le by (auto simp: fh_read_buf_def Let_def min_def)
  from assms have "value_size_cut_short (data f') (pos f')"
    by (simp add: d p)
  then show ?thesis
    using next_from_index_cut_short [of "c\<lparr>fh := f', current_key := take reuse (last_key c) @ buf,
        last_key := take reuse (last_key c) @ buf\<rparr>"]
    by (simp add: read_key_def r Let_def)
qed

lemma next_entry_start:
  assumes "\<not> is_at_end c" and "entry_start c < root c"
  shows "HoneyCursor_next c =
     (let c1 = c\<lparr>fh := (fh c)\<lparr>pos := entry_start c\<rparr>, val_size := 0\<rparr>
      in case fh_read (fh c1) of (ch, f1) \<Rightarrow>
           if ch = EOF then Inl (Throw DatabaseCorruptError)
           else if last_key c \<noteq> [] then
             (case fh_read f1 of (ch', f2) \<Rightarrow>
                if ch' = EOF then Inl (Throw DatabaseError)
                else read_key (nat ch) (nat ch') f2 c1)
           else read_key 0 (nat ch) f1 c1)"
proof (cases "val_size c = 0")
  case True
  then have e: "c\<lparr>val_size := 0\<rparr> = c"
    by (cases c) auto
  from assms True show ?thesis
    by (simp add: HoneyCursor_next_def entry_start_def fh_get_pos_def Let_def e)
next
  case False
  with assms show ?thesis
    by (simp add: HoneyCursor_next_def entry_start_def fh_get_pos_def fh_skip_def Let_def
        split: prod.splits)
qed

lemma next_eof_at_entry:
  assumes "\<not> is_at_end c" and "entry_start c < root c"
    and "length (data (fh c)) \<le> entry_start c"
  shows "HoneyCursor_next c = Inl (Throw DatabaseCorruptError)"
  using assms(3) by (simp add: next_entry_start [OF assms(1,2)] fh_read_def Let_def)

lemma next_eof_at_key_length:
  assumes "\<not> is_at_end c" and "entry_start c < root c" and "last_key c \<noteq> []"
    and "length (data (fh c)) = entry_start c + 1"
  shows "HoneyCursor_next c = Inl (Throw DatabaseError)"
proof -
  have "uint (data (fh c) ! entry_start c) \<noteq> - 1"
    using uint_ge_0 [of "data (fh c) ! entry_start c"] by linarith
  with assms(3,4) show ?thesis
    by (simp add: next_entry_start [OF assms(1,2)] fh_read_def Let_def)
qed

lemma next_cut_short_first:
  assumes "\<not> is_at_end c" and "entry_start c < root c" and "last_key c = []"
    and "entry_start c < length (data (fh c))"
    and "value_size_cut_short (data (fh c))
           (entry_start c + 1 + unat (data (fh c) ! entry_start c))"
  shows "HoneyCursor_next c = Inl (Throw DatabaseError)"
proof -
  let ?b = "data (fh c) ! entry_start c"
  let ?c1 = "c\<lparr>fh := (fh c)\<lparr>pos := entry_start c\<rparr>, val_size := 0\<rparr>"
  let ?f1 = "(fh c)\<lparr>pos := entry_start c + 1\<rparr>"
  have n: "uint ?b \<noteq> - 1" using uint_ge_0 [of ?b] by linarith
  have "read_key 0 (nat (uint ?b)) ?f1 ?c1 = Inl (Throw DatabaseError)"
    by (rule read_key_cut_short) (use assms(5) in \<open>simp add: add.assoc\<close>)
  with assms(3,4) n show ?thesis
    by (simp add: next_entry_start [OF assms(1,2)] fh_read_def Let_def)
qed

lemma next_cut_short_later:
  assumes "\<not> is_at_end c" and "entry_start c < root c" and "last_key c \<noteq> []"
    and "entry_start c + 1 < length (data (fh c))"
    and "value_size_cut_short (data (fh c))
           (entry_start c + 2 + unat (data (fh c) ! (entry_start c + 1)))"
  shows "HoneyCursor_next c = Inl (Throw DatabaseError)"
proof -
  let ?a = "data (fh c) ! entry_start c"
  let ?b = "data (fh c) ! (entry_start c + 1)"
  let ?c1 = "c\<lparr>fh := (fh c)\<lparr>pos := entry_start c\<rparr>, val_size := 0\<rparr>"
  let ?f2 = "(fh c)\<lparr>pos := entry_start c + 2\<rparr>"
  have n: "uint ?a \<noteq> - 1" "uint ?b \<noteq> - 1"
    using uint_ge_0 [of ?a] uint_ge_0 [of ?b] by linarith+
  have "read_key (nat (uint ?a)) (nat (uint ?b)) ?f2 ?c1 = Inl (Throw DatabaseError)"
    by (rule read_key_cut_short) (use assms(5) in \<open>simp add: add.assoc\<close>)
  with assms(3,4) n show ?thesis
    by (simp add: next_entry_start [OF assms(1,2)] fh_read_def Let_def)
qed

lemma find_index_unknown_type:
  assumes "index_type_byte c \<notin> {Some 0, Some 1, Some 2}"
  shows "find_index key c = Inl (Throw DatabaseCorruptError)"
proof (cases "root c < length (data (fh c))")
  case False
  then show ?thesis by (simp add: find_index_def fh_read_def fh_rewind_def)
next
  case True
  let ?b = "data (fh c) ! root c"
  from True assms have "?b \<noteq> 0" "?b \<noteq> 1" "?b \<noteq> 2" by (simp_all add: index_type_byte_def)
  then have "uint ?b \<noteq> uint (0::byte)" "uint ?b \<noteq> uint (1::byte)"
    "uint ?b \<noteq> uint (2::byte)"
    by (simp_all only: word_uint_eq_iff [symmetric] not_False_eq_True)
  then have "uint ?b \<noteq> 0" "uint ?b \<noteq> 1" "uint ?b \<noteq> 2" by simp_all
  with True show ?thesis by (simp add: find_index_def fh_read_def fh_rewind_def)
qed

lemma do_find_unknown_type:
  assumes "consults_index key c" and "index_type_byte c \<notin> {Some 0, Some 1, Some 2}"
  shows "do_find key greater_than c = Inl (Throw DatabaseCorruptError)"
  using assms(1)
  by (auto simp: do_find_def consults_index_def Let_def find_index_unknown_type [OF assms(2)])

text \<open>
  Claim C6, as stated, at a table file cut after the reuse byte of its second entry: the
  first \<open>next\<close> returns the key \<open>b\<close>, the second hits the end of the file where the
  key length should be, and throws \<^verbatim>\<open>Xapian::DatabaseError\<close>, which is not the
  database-corruption error.
\<close>

theorem C6_eof_at_key_length_counterexample:
  "HoneyCursor_next (rewound_cursor (take 4 S6_entries) 13)
     = Inr (True, positioned_cursor (take 4 S6_entries) 13 3 [0x62])
   \<and> HoneyCursor_next (positioned_cursor (take 4 S6_entries) 13 3 [0x62])
     = Inl (Throw DatabaseError)
   \<and> Throw DatabaseError \<noteq> Throw DatabaseCorruptError"
  by code_simp

text \<open>
  Claim C6, amended. While stepping, when \<open>next\<close> hits the end of the file where an
  entry should start (before the root), it throws the database-corruption error; when it
  hits the end of the file at the key-length byte that follows a reuse byte, or, with the
  key bytes complete, before the value-size varint is complete, it throws the general
  database error (\<^verbatim>\<open>Xapian::DatabaseError\<close>). When \<open>find\<close> goes to the index and the
  index-type byte is none of 0x00, 0x01, 0x02 (or is missing), it throws the
  database-corruption error. Each of these failures aborts the operation: no result is
  returned.
\<close>

theorem C6_cursor_failures:
  "(\<not> is_at_end c \<and> entry_start c < root c \<and> length (data (fh c)) \<le> entry_start c
      \<longrightarrow> HoneyCursor_next c = Inl (Throw DatabaseCorruptError))
   \<and> (\<not> is_at_end c \<and> entry_start c < root c \<and> last_key c \<noteq> []
        \<and> length (data (fh c)) = entry_start c + 1
      \<longrightarrow> HoneyCursor_next c = Inl (Throw DatabaseError))
   \<and> (\<not> is_at_end c \<and> entry_start c < root c \<and> last_key c = []
        \<and> entry_start c < length (data (fh c))
        \<and> value_size_cut_short (data (fh c))
             (entry_start c + 1 + unat (data (fh c) ! entry_start c))
      \<longrightarrow> HoneyCursor_next c = Inl (Throw DatabaseError))
   \<and> (\<not> is_at_end c \<and> entry_start c < root c \<and> last_key c \<noteq> []
        \<and> entry_start c + 1 < length (data (fh c))
        \<and> value_size_cut_short (data (fh c))
             (entry_start c + 2 + unat (data (fh c) ! (entry_start c + 1)))
      \<longrightarrow> HoneyCursor_next c = Inl (Throw DatabaseError))
   \<and> (consults_index key c \<and> index_type_byte c \<notin> {Some 0, Some 1, Some 2}
      \<longrightarrow> do_find key greater_than c = Inl (Throw DatabaseCorruptError))"
  using next_eof_at_entry [of c] next_eof_at_key_length [of c] next_cut_short_first [of c]
    next_cut_short_later [of c] do_find_unknown_type [of key c greater_than]
  by blast

theorem C6_cursor_failures_witness:
  "HoneyCursor_next (positioned_cursor (take 3 S6_entries) 13 3 [0x62])
     = Inl (Throw DatabaseCorruptError)
   \<and> HoneyCursor_next (positioned_cursor (take 4 S6_entries) 13 3 [0x62])
     = Inl (Throw DatabaseError)
   \<and> HoneyCursor_next (rewound_cursor (take 2 S6_entries) 13) = Inl (Throw DatabaseError)
   \<and> HoneyCursor_next (positioned_cursor (take 6 S6_entries) 13 3 [0x62])
     = Inl (Throw DatabaseError)
   \<and> do_find [0x61] False (rewound_cursor (S6_entries @ [7]) 13)
     = Inl (Throw DatabaseCorruptError)"
proof -
  let ?c1 = "positioned_cursor (take 3 S6_entries) 13 3 [0x62]"
  let ?c2 = "positioned_cursor (take 4 S6_entries) 13 3 [0x62]"
  let ?c3 = "rewound_cursor (take 2 S6_entries) 13"
  let ?c4 = "positioned_cursor (take 6 S6_entries) 13 3 [0x62]"
  let ?c5 = "rewound_cursor (S6_entries @ [7]) 13"
  have h1: "\<not> is_at_end ?c1 \<and> entry_start ?c1 < root ?c1
            \<and> length (data (fh ?c1)) \<le> entry_start ?c1"
    by code_simp
  have h2: "\<not> is_at_end ?c2 \<and> entry_start ?c2 < root ?c2 \<and> last_key ?c2 \<noteq> []
            \<and> length (data (fh ?c2)) = entry_start ?c2 + 1"
    by code_simp
  have h3: "\<not> is_at_end ?c3 \<and> entry_start ?c3 < root ?c3 \<and> last_key ?c3 = []
        \<and> entry_start ?c3 < length (data (fh ?c3))
        \<and> value_size_cut_short (data (fh ?c3))
             (entry_start ?c3 + 1 + unat (data (fh ?c3) ! entry_start ?c3))"
    by code_simp
  have h4: "\<not> is_at_end ?c4 \<and> entry_start ?c4 < root ?c4 \<and> last_key ?c4 \<noteq> []
        \<and> entry_start ?c4 + 1 < length (data (fh ?c4))
        \<and> value_size_cut_short (data (fh ?c4))
             (entry_start ?c4 + 2 + unat (data (fh ?c4) ! (entry_start ?c4 + 1)))"
    by code_simp
  have h5: "consults_index [0x61] ?c5 \<and> index_type_byte ?c5 \<notin> {Some 0, Some 1, Some 2}"
    by code_simp
  note r1 = C6_cursor_failures [of ?c1, THEN conjunct1, THEN mp, OF h1]
  note r2 = C6_cursor_failures [of ?c2, THEN conjunct2, THEN conjunct1, THEN mp, OF h2]
  note r3 = C6_cursor_failures [of ?c3, THEN conjunct2, THEN conjunct2, THEN conjunct1,
      THEN mp, OF h3]
  note r4 = C6_cursor_failures [of ?c4, THEN conjunct2, THEN conjunct2, THEN conjunct2,
      THEN conjunct1, THEN mp, OF h4]
  note r5 = C6_cursor_failures [of ?c5 "[0x61]" False, THEN conjunct2, THEN conjunct2,
      THEN conjunct2, THEN conjunct2, THEN mp, OF h5]
  show ?thesis
    by (intro conjI) (rule r1 r2 r3 r4 r5)+
qed

text \<open>
  Claim C4 at the table with the array index (type 0x00) and the key \<open>a\<close>, which is
  absent and sorts before every stored key: the first byte of the key is below the base
  of the index, the subtraction wraps around to 255, which is above the range, and
  \<open>do_find\<close> returns false with the cursor at its end, although the stored key \<open>b\<close>
  (the first that \<open>next\<close> yields) is greater than \<open>a\<close>. On the same content with index
  types 0x01 and 0x02, \<open>do_find\<close> returns false with the cursor on \<open>b\<close>.
\<close>

theorem C4_find_below_array_base:
  "outcome (do_find [0x61] False (rewound_cursor S6_array 13)) = Inr (False, True, [])
   \<and> outcome (HoneyCursor_next (rewound_cursor S6_array 13)) = Inr (True, False, [0x62])
   \<and> string_compare [0x62] [0x61] = 1
   \<and> outcome (do_find [0x61] False (rewound_cursor S6_binary_chop 13))
       = Inr (False, False, [0x62])
   \<and> outcome (do_find [0x61] False (rewound_cursor S6_skiplist 13))
       = Inr (False, False, [0x62])"
  by code_simp

text \<open>
  The keys that are present are found in all three tables, and an absent key between two
  stored keys leaves the cursor on the next stored key.
\<close>

lemma S6_find_present_and_between:
  "map (\<lambda>k. outcome (do_find k False (rewound_cursor S6_array 13)))
       [[0x62], [0x62, 0x63], [0x63], [0x64], [0x65]]
     = [Inr (True, False, [0x62]), Inr (True, False, [0x62, 0x63]),
        Inr (False, False, [0x64]), Inr (True, False, [0x64]), Inr (False, True, [])]
   \<and> map (\<lambda>k. outcome (do_find k False (rewound_cursor S6_binary_chop 13)))
       [[0x62], [0x62, 0x63], [0x63], [0x64], [0x65]]
     = [Inr (True, False, [0x62]), Inr (True, False, [0x62, 0x63]),
        Inr (False, False, [0x64]), Inr (True, False, [0x64]), Inr (False, True, [0x64])]
   \<and> map (\<lambda>k. outcome (do_find k False (rewound_cursor S6_skiplist 13)))
       [[0x62], [0x62, 0x63], [0x63], [0x64], [0x65]]
     = [Inr (True, False, [0x62]), Inr (True, False, [0x62, 0x63]),
        Inr (False, False, [0x64]), Inr (True, False, [0x64]), Inr (False, True, [0x64])]"
  by code_simp

text \<open>
  The same happens on every table with an array index, for every key whose first byte is
  below the base of the index: the difference wraps around and exceeds the range.
\<close>

lemma byte_wrap_above_range:
  fixes k b r :: byte
  assumes "k < b" and "unat b + unat r \<le> 255"
  shows "r < k - b"
proof -
  from assms(1) have lt: "unat k < unat b" by (simp add: word_less_nat_alt)
  then have "unat (k - b) = unat k + 256 - unat b"
    by (simp add: unat_sub_if_size word_size)
  with lt assms(2) have "unat r < unat (k - b)" by simp
  then show ?thesis by (simp add: word_less_nat_alt)
qed

lemma do_find_below_array_base:
  assumes "consults_index key c"
    and "root c + 2 < length (data (fh c))"
    and "data (fh c) ! root c = 0"
    and "char_at_0 key < data (fh c) ! (root c + 1)"
    and "unat (data (fh c) ! (root c + 1)) + unat (data (fh c) ! (root c + 2)) \<le> 255"
  shows "do_find key greater_than c
           = Inr (False, c\<lparr>fh := (fh c)\<lparr>pos := root c + 3\<rparr>, is_at_end := True\<rparr>)"
proof -
  let ?b = "data (fh c) ! (root c + 1)"
  let ?r = "data (fh c) ! (root c + 2)"
  have w: "?r < char_at_0 key - ?b"
    by (rule byte_wrap_above_range [OF assms(4,5)])
  have "find_index key c
          = Inr (Some False, c\<lparr>fh := (fh c)\<lparr>pos := root c + 3\<rparr>, is_at_end := True\<rparr>)"
    using assms(2,3) w
    by (simp add: find_index_def find_index_array_def fh_read_def fh_rewind_def Let_def
        numeral_3_eq_3 numeral_2_eq_2)
  with assms(1) show ?thesis
    by (auto simp: do_find_def consults_index_def Let_def)
qed

end
